theory Spec2Isabelle
  imports Main "HOL-Library.Word" "HOL-Library.Multiset" "HOL-Library.Char_ord"
    "HOL-Library.List_Lexorder"
begin

unbundle bit_operations_syntax

section \<open>Data model of \<open>app/fileStat.go\<close>\<close>

text \<open>
  The protobuf message \<open>file.StatInfo\<close> has the fields \<open>path\<close> (string),
  \<open>last_modified\<close> (uint64), \<open>permissions\<close> (uint32), \<open>size\<close> (uint64) and
  \<open>umask\<close> (uint32). \<open>fileStatInfo\<close> pairs one such message with the result of the
  directory probe.
\<close>

record StatInfo =
  Path :: string
  LastModified :: "64 word"
  Permissions :: "32 word"
  Size :: "64 word"
  Umask :: "32 word"

record fileStatInfo =
  si :: StatInfo
  isDir :: bool

text \<open>
  The remote file service of one target. \<open>Stat\<close> is the RPC \<open>fileClient.Stat\<close>: it
  answers a path with an error (its message) or with the list \<open>r.Stats\<close>. \<open>IsDir\<close> is
  \<open>a.isDir(ctx, fileClient, path)\<close>: its body is not part of \<open>fileStat.go\<close>, it is a probe
  on the same client, so it is a second field of the client here. Both are functions of
  the path alone: the remote file system is taken to be unchanged during one walk.
\<close>

record FileClient =
  Stat :: "string \<Rightarrow> string + StatInfo list"
  IsDir :: "string \<Rightarrow> string + bool"

text \<open>
  \<open>Target\<close>: \<open>t.Config.Address\<close>, the outcome of \<open>a.CreateGrpcClient\<close> for this target
  (\<open>None\<close> is Go's \<open>nil\<close> error) and the client the connection gives. When the
  connection failed, \<open>t.client\<close> is \<open>nil\<close> and the field \<open>client\<close> stands for nothing.
\<close>

record Target =
  Address :: string
  CreateGrpcClient :: "string option"
  client :: FileClient

text \<open>The three flags of \<open>InitFileStatFlags\<close>, with their defaults below.\<close>

record Config =
  FileStatPath :: "string list"
  FileStatHumanize :: bool
  FileStatRecursive :: bool

definition InitFileStatFlags :: Config where
  "InitFileStatFlags = \<lparr>FileStatPath = [], FileStatHumanize = False, FileStatRecursive = False\<rparr>"

text \<open>
  Errors are values. \<open>StatFailed addr path cause\<close> is the error that \<open>fileStat\<close> builds
  with \<open>fmt.Errorf("%q file %q stat err: %v", t.Config.Address, path, err)\<close>;
  \<open>ConnectFailed cause\<close> is the error \<open>a.CreateGrpcClient\<close> returned;
  \<open>FileStatFailed name err\<close> is the error that \<open>RunEFileStat\<close> builds with
  \<open>fmt.Errorf("%q File Stat failed: %v", rsp.TargetName, rsp.Err)\<close>.
\<close>

datatype error =
    StatFailed string string string
  | ConnectFailed string
  | FileStatFailed string error

text \<open>
  \<open>fileStatResponse\<close>: the embedded \<open>TargetError\<close> (\<open>TargetName\<close>, \<open>Err\<close>, where \<open>None\<close> is
  \<open>nil\<close>) and the entries \<open>rsp\<close> (\<open>[]\<close> for a \<open>nil\<close> slice).
\<close>

record fileStatResponse =
  TargetName :: string
  Err :: "error option"
  rsp :: "fileStatInfo list"

text \<open>
  The remote calls a walk issues are its effect on the outside world; they are recorded,
  in order, in a trace that every function takes and returns. What the code writes to
  \<open>a.Logger\<close> is not modelled.
\<close>

datatype call = StatCall string | IsDirCall string

section \<open>The recursive walker\<close>

text \<open>
  \<open>fileStat\<close> (lines 112-146) calls itself for every directory entry, and nothing in the
  code bounds the depth: a service that lists a directory inside itself makes it recurse
  for ever. The first argument is the number of nested \<open>fileStat\<close> activations allowed;
  \<open>None\<close> means that the bound was hit, every other outcome is the code's.

  \<open>fileStat_loop\<close> is the loop \<open>for _, si := range r.Stats\<close> (lines 121-144), with the
  slice \<open>rsps\<close> and the trace as the loop's state:
  \<^item> \<open>isDir\<close> fails: log, \<open>continue\<close> (line 125), before anything is appended;
  \<^item> otherwise the entry is appended (line 128);
  \<^item> a directory, with the recursive flag set: the nested \<open>fileStat\<close>; on its error
    log and \<open>continue\<close> (line 137), otherwise its entries are appended one by one
    (lines 139-142).
\<close>

fun fileStat :: "nat \<Rightarrow> Config \<Rightarrow> Target \<Rightarrow> string \<Rightarrow> call list
    \<Rightarrow> ((error + fileStatInfo list) \<times> call list) option"
and fileStat_loop :: "nat \<Rightarrow> Config \<Rightarrow> Target \<Rightarrow> StatInfo list \<Rightarrow> fileStatInfo list
    \<Rightarrow> call list \<Rightarrow> (fileStatInfo list \<times> call list) option"
where
  "fileStat 0 a t path tr = None"
| "fileStat (Suc n) a t path tr =
    (case Stat (client t) path of
       Inl err \<Rightarrow> Some (Inl (StatFailed (Address t) path err), tr @ [StatCall path])
     | Inr stats \<Rightarrow>
         (case fileStat_loop n a t stats [] (tr @ [StatCall path]) of
            None \<Rightarrow> None
          | Some (rsps, tr') \<Rightarrow> Some (Inr rsps, tr')))"
| "fileStat_loop n a t [] rsps tr = Some (rsps, tr)"
| "fileStat_loop n a t (s # rest) rsps tr =
    (case IsDir (client t) (Path s) of
       Inl err \<Rightarrow> fileStat_loop n a t rest rsps (tr @ [IsDirCall (Path s)])
     | Inr d \<Rightarrow>
         (if d \<and> FileStatRecursive a then
            (case fileStat n a t (Path s) (tr @ [IsDirCall (Path s)]) of
               None \<Rightarrow> None
             | Some (Inl err, tr') \<Rightarrow>
                 fileStat_loop n a t rest (rsps @ [\<lparr>si = s, isDir = d\<rparr>]) tr'
             | Some (Inr fsi, tr') \<Rightarrow>
                 fileStat_loop n a t rest ((rsps @ [\<lparr>si = s, isDir = d\<rparr>]) @ fsi) tr')
          else fileStat_loop n a t rest (rsps @ [\<lparr>si = s, isDir = d\<rparr>])
                 (tr @ [IsDirCall (Path s)])))"

text \<open>
  \<open>FileStat\<close> (lines 99-110): the loop over the seed paths \<open>a.Config.FileStatPath\<close>. The
  first seed whose \<open>fileStat\<close> fails ends the walk with \<open>return nil, err\<close>.
\<close>

fun FileStat_loop :: "nat \<Rightarrow> Config \<Rightarrow> Target \<Rightarrow> string list \<Rightarrow> fileStatInfo list
    \<Rightarrow> call list \<Rightarrow> ((error + fileStatInfo list) \<times> call list) option"
where
  "FileStat_loop n a t [] rsps tr = Some (Inr rsps, tr)"
| "FileStat_loop n a t (path # paths) rsps tr =
    (case fileStat n a t path tr of
       None \<Rightarrow> None
     | Some (Inl err, tr') \<Rightarrow> Some (Inl err, tr')
     | Some (Inr fsi, tr') \<Rightarrow> FileStat_loop n a t paths (rsps @ fsi) tr')"

definition FileStat :: "nat \<Rightarrow> Config \<Rightarrow> Target \<Rightarrow> call list
    \<Rightarrow> ((error + fileStatInfo list) \<times> call list) option" where
  "FileStat n a t tr = FileStat_loop n a t (FileStatPath a) [] tr"

section \<open>Example services\<close>

definition mkStat :: "string \<Rightarrow> StatInfo" where
  "mkStat p = \<lparr>Path = p, LastModified = 0, Permissions = 0x1A4, Size = 5, Umask = 0x1FF\<rparr>"

text \<open>
  \<open>/var\<close> lists \<open>/var/log\<close> and \<open>/var/run\<close>; \<open>/var/log\<close> is a directory that lists
  \<open>/var/log/syslog\<close>; every other path is unknown to the service. In \<open>svc_var\<close> the
  directory probe works; in \<open>svc_probe_down\<close> it fails for \<open>/var/log\<close>.
\<close>

definition var_Stat :: "string \<Rightarrow> string + StatInfo list" where
  "var_Stat p =
     (if p = ''/var'' then Inr [mkStat ''/var/log'', mkStat ''/var/run'']
      else if p = ''/var/log'' then Inr [mkStat ''/var/log/syslog'']
      else Inl ''no such file'')"

definition svc_var :: FileClient where
  "svc_var = \<lparr>Stat = var_Stat, IsDir = (\<lambda>p. Inr (p = ''/var/log''))\<rparr>"

definition svc_probe_down :: FileClient where
  "svc_probe_down = \<lparr>Stat = var_Stat,
     IsDir = (\<lambda>p. if p = ''/var/log'' then Inl ''unavailable'' else Inr False)\<rparr>"

text \<open>In \<open>svc_var2\<close> both entries of \<open>/var\<close> are directories, and \<open>/var/run\<close> cannot be listed.\<close>

definition svc_var2 :: FileClient where
  "svc_var2 = \<lparr>Stat = var_Stat, IsDir = (\<lambda>p. Inr (p = ''/var/log'' \<or> p = ''/var/run''))\<rparr>"

definition tgt :: "FileClient \<Rightarrow> Target" where
  "tgt c = \<lparr>Address = ''r1:57400'', CreateGrpcClient = None, client = c\<rparr>"

definition cfg :: "string list \<Rightarrow> bool \<Rightarrow> Config" where
  "cfg ps r = \<lparr>FileStatPath = ps, FileStatHumanize = False, FileStatRecursive = r\<rparr>"

section \<open>The walker without its accumulators\<close>

text \<open>
  An auxiliary view, not a translation of any source function: \<open>stat_walk\<close> and \<open>walk\<close>
  return what one activation of \<open>fileStat\<close>, or one run of its loop, adds to the result
  slice and to the trace. They are proved equal to the code's functions below
  (\<open>fileStat_stat_walk\<close>, \<open>fileStat_loop_walk\<close>) and serve as induction scheme.
\<close>

fun stat_walk :: "nat \<Rightarrow> Config \<Rightarrow> Target \<Rightarrow> string
    \<Rightarrow> ((error + fileStatInfo list) \<times> call list) option"
and walk :: "nat \<Rightarrow> Config \<Rightarrow> Target \<Rightarrow> StatInfo list
    \<Rightarrow> (fileStatInfo list \<times> call list) option"
where
  "stat_walk 0 a t path = None"
| "stat_walk (Suc n) a t path =
    (case Stat (client t) path of
       Inl err \<Rightarrow> Some (Inl (StatFailed (Address t) path err), [StatCall path])
     | Inr stats \<Rightarrow>
         map_option (\<lambda>(out, d). (Inr out, StatCall path # d)) (walk n a t stats))"
| "walk n a t [] = Some ([], [])"
| "walk n a t (s # rest) =
    (case IsDir (client t) (Path s) of
       Inl err \<Rightarrow> map_option (\<lambda>(out, d). (out, IsDirCall (Path s) # d)) (walk n a t rest)
     | Inr b \<Rightarrow>
         (if b \<and> FileStatRecursive a then
            (case stat_walk n a t (Path s) of
               None \<Rightarrow> None
             | Some (r, d1) \<Rightarrow>
                 map_option
                   (\<lambda>(out, d2).
                      (\<lparr>si = s, isDir = b\<rparr> # (case r of Inl err \<Rightarrow> [] | Inr fsi \<Rightarrow> fsi) @ out,
                       IsDirCall (Path s) # d1 @ d2))
                   (walk n a t rest))
          else map_option (\<lambda>(out, d). (\<lparr>si = s, isDir = b\<rparr> # out, IsDirCall (Path s) # d))
                 (walk n a t rest)))"

section \<open>What the specification says of the walk\<close>

text \<open>
  These definitions follow the words of the specification, not the code; the theorems
  below compare them with \<open>FileStat\<close>.

  The directory tree as the service presents it to a walk: \<open>explore n a t stats\<close> is the
  forest under one stat answer. Every entry whose probe succeeds is a node (an entry
  whose probe fails is none, see C1); its children are the forest under the stat answer
  for its path when it is a directory and recursion is enabled (none when that stat call
  fails), and it has no children otherwise. \<open>n\<close> bounds the depth, \<open>None\<close> means the tree
  is deeper.
\<close>

datatype dtree = DNode fileStatInfo "dtree list"

fun explore :: "nat \<Rightarrow> Config \<Rightarrow> Target \<Rightarrow> StatInfo list \<Rightarrow> dtree list option" where
  "explore n a t [] = Some []"
| "explore n a t (s # rest) =
    (case IsDir (client t) (Path s) of
       Inl err \<Rightarrow> explore n a t rest
     | Inr b \<Rightarrow>
         (case (if b \<and> FileStatRecursive a then
                  (case n of
                     0 \<Rightarrow> None
                   | Suc m \<Rightarrow>
                       (case Stat (client t) (Path s) of
                          Inl err \<Rightarrow> Some []
                        | Inr kids \<Rightarrow> explore m a t kids))
                else Some []) of
            None \<Rightarrow> None
          | Some kids \<Rightarrow>
              map_option ((#) (DNode \<lparr>si = s, isDir = b\<rparr> kids)) (explore n a t rest)))"

text \<open>Depth-first pre-order: a node, then its subtrees from left to right.\<close>

fun preorder :: "dtree \<Rightarrow> fileStatInfo list" where
  "preorder (DNode e kids) = e # concat (map preorder kids)"

text \<open>
  The result the specification asks of a walk: the seeds in the order given, each
  contributing the pre-order listing of the forest under its stat answer; the stat error
  of a seed is the outcome of the whole walk.
\<close>

fun seeds_preorder :: "nat \<Rightarrow> Config \<Rightarrow> Target \<Rightarrow> string list
    \<Rightarrow> (error + fileStatInfo list) option" where
  "seeds_preorder n a t [] = Some (Inr [])"
| "seeds_preorder n a t (p # ps) =
    (case n of
       0 \<Rightarrow> None
     | Suc m \<Rightarrow>
         (case Stat (client t) p of
            Inl err \<Rightarrow> Some (Inl (StatFailed (Address t) p err))
          | Inr stats \<Rightarrow>
              (case explore m a t stats of
                 None \<Rightarrow> None
               | Some forest \<Rightarrow>
                   (case seeds_preorder n a t ps of
                      None \<Rightarrow> None
                    | Some (Inl err) \<Rightarrow> Some (Inl err)
                    | Some (Inr r) \<Rightarrow> Some (Inr (concat (map preorder forest) @ r))))))"

text \<open>
  Without recursion: \<open>classify\<close> keeps, in order, the entries of one stat answer whose
  probe succeeded, and \<open>top_level\<close> is the walk that stats the seeds and nothing else,
  with the calls it issues.
\<close>

definition classify :: "FileClient \<Rightarrow> StatInfo list \<Rightarrow> fileStatInfo list" where
  "classify c stats =
     concat (map (\<lambda>s. case IsDir c (Path s) of Inl err \<Rightarrow> [] | Inr b \<Rightarrow> [\<lparr>si = s, isDir = b\<rparr>]) stats)"

fun top_level :: "Target \<Rightarrow> string list \<Rightarrow> (error + fileStatInfo list) \<times> call list" where
  "top_level t [] = (Inr [], [])"
| "top_level t (p # ps) =
    (case Stat (client t) p of
       Inl err \<Rightarrow> (Inl (StatFailed (Address t) p err), [StatCall p])
     | Inr stats \<Rightarrow>
         (case top_level t ps of
            (Inl err, d) \<Rightarrow> (Inl err, StatCall p # map (IsDirCall \<circ> Path) stats @ d)
          | (Inr r, d) \<Rightarrow>
              (Inr (classify (client t) stats @ r),
               StatCall p # map (IsDirCall \<circ> Path) stats @ d)))"

text \<open>The paths of the stat calls in a trace, and the paths those calls listed.\<close>

fun stat_calls :: "call list \<Rightarrow> string list" where
  "stat_calls [] = []"
| "stat_calls (StatCall p # tr) = p # stat_calls tr"
| "stat_calls (IsDirCall p # tr) = stat_calls tr"

fun listed :: "FileClient \<Rightarrow> call list \<Rightarrow> string list" where
  "listed c [] = []"
| "listed c (StatCall p # tr) =
     (case Stat c p of Inl err \<Rightarrow> [] | Inr stats \<Rightarrow> map Path stats) @ listed c tr"
| "listed c (IsDirCall p # tr) = listed c tr"

text \<open>The \<open>path\<close> fields of a result list.\<close>

fun paths :: "fileStatInfo list \<Rightarrow> string list" where
  "paths [] = []"
| "paths (e # out) = Path (si e) # paths out"

text \<open>
  The paths that the stat calls in a trace listed and whose directory probe succeeded,
  each as often as it was listed.
\<close>

fun listed_ok :: "FileClient \<Rightarrow> call list \<Rightarrow> string list" where
  "listed_ok c [] = []"
| "listed_ok c (StatCall p # tr) =
     (case Stat c p of Inl err \<Rightarrow> [] | Inr stats \<Rightarrow> paths (classify c stats)) @ listed_ok c tr"
| "listed_ok c (IsDirCall p # tr) = listed_ok c tr"

section \<open>The aggregation loop of \<open>RunEFileStat\<close>\<close>

text \<open>
  Lines 83-93, after the channel is closed: \<open>aggregate\<close> drains the channel (its contents
  in the order they were sent) with the slices \<open>errs\<close> and \<open>result\<close> as the loop's state.
  An outcome with an error adds the wrapped error to \<open>errs\<close> (the same error is logged),
  any other outcome is appended to \<open>result\<close>.
\<close>

fun aggregate :: "fileStatResponse list \<Rightarrow> error list \<Rightarrow> fileStatResponse list
    \<Rightarrow> error list \<times> fileStatResponse list" where
  "aggregate [] errs result = (errs, result)"
| "aggregate (r # chan) errs result =
    (case Err r of
       Some e \<Rightarrow> aggregate chan (errs @ [FileStatFailed (TargetName r) e]) result
     | None \<Rightarrow> aggregate chan errs (result @ [r]))"

text \<open>The target identities in the two outputs of the aggregation.\<close>

fun failed_targets :: "error list \<Rightarrow> string list" where
  "failed_targets [] = []"
| "failed_targets (FileStatFailed name e # errs) = name # failed_targets errs"
| "failed_targets (e # errs) = failed_targets errs"

section \<open>The report formatter \<open>statTable\<close>\<close>

text \<open>
  \<open>os.FileMode.String\<close> of Go's standard library (package \<open>io/fs\<close>), which \<open>statTable\<close>
  calls for the permission and umask columns: one letter of \<open>dalTLDpSugct?\<close> for each
  of the bits 31, 30, ... that is set, a single \<open>-\<close> when none is, then nine characters
  \<open>rwxrwxrwx\<close> for the bits 8 ... 0, each replaced by \<open>-\<close> when its bit is clear.
  The two functions are its two loops, \<open>i\<close> the loop index.
\<close>

fun FileMode_flags :: "32 word \<Rightarrow> nat \<Rightarrow> string \<Rightarrow> string" where
  "FileMode_flags m i [] = []"
| "FileMode_flags m i (c # str) =
    (if m AND push_bit (32 - 1 - i) 1 \<noteq> 0 then c # FileMode_flags m (Suc i) str
     else FileMode_flags m (Suc i) str)"

fun FileMode_rwx :: "32 word \<Rightarrow> nat \<Rightarrow> string \<Rightarrow> string" where
  "FileMode_rwx m i [] = []"
| "FileMode_rwx m i (c # rwx) =
    (if m AND push_bit (9 - 1 - i) 1 \<noteq> 0 then c else CHR ''-'') # FileMode_rwx m (Suc i) rwx"

definition FileMode_String :: "32 word \<Rightarrow> string" where
  "FileMode_String m =
     (let buf = FileMode_flags m 0 ''dalTLDpSugct?''
      in (if buf = [] then ''-'' else buf) @ FileMode_rwx m 0 ''rwxrwxrwx'')"

text \<open>
  Lines 153-156. The slice expression \<open>perms[1:]\<close> panics on an empty string; the panic
  is a value here.
\<close>

datatype panic = SliceBoundsOutOfRange

definition permString :: "fileStatInfo \<Rightarrow> panic + string" where
  "permString fsi =
     (let perms = FileMode_String (Permissions (si fsi) AND Umask (si fsi))
      in if isDir fsi then
           (if 1 \<le> length perms then Inr (''d'' @ drop 1 perms) else Inl SliceBoundsOutOfRange)
         else Inr perms)"

text \<open>\<open>strconv.Itoa\<close>: the decimal digits of an integer, with a sign when negative.\<close>

fun decimal :: "nat \<Rightarrow> string" where
  "decimal n =
     (if n < 10 then [''0123456789'' ! n]
      else decimal (n div 10) @ [''0123456789'' ! (n mod 10)])"

declare decimal.simps [simp del]

definition Itoa :: "int \<Rightarrow> string" where
  "Itoa i = (if i < 0 then ''-'' @ decimal (nat (- i)) else decimal (nat i))"

text \<open>
  What \<open>statTable\<close> takes from other packages, as parameters:
  \<^item> \<open>humanize_Time\<close>, \<open>humanize_Bytes\<close>: \<open>humanize.Time(time.Unix(0, int64(x)))\<close> and
    \<open>humanize.Bytes(x)\<close>, at the time of the call;
  \<^item> \<open>time_RFC3339\<close>: \<open>time.Unix(0, int64(x)).Format(time.RFC3339)\<close>, in the local zone;
  \<^item> \<open>sort_Slice\<close>: \<open>sort.Slice(data, func(i, j int) bool { return data[i][1] < data[j][1] })\<close>
    on the rows of one target. \<open>sort.Slice\<close> is not stable, so the order it gives to rows
    with equal paths is not known: \<open>sort_Slice_ok\<close> is all that is assumed of it;
  \<^item> \<open>table_Render\<close>: the text that \<open>tablewriter\<close>, set up by \<open>formatTable\<close>, renders for a
    header and the rows appended to the table.
\<close>

record Library =
  humanize_Time :: "64 word \<Rightarrow> string"
  humanize_Bytes :: "64 word \<Rightarrow> string"
  time_RFC3339 :: "64 word \<Rightarrow> string"
  sort_Slice :: "string list list \<Rightarrow> string list list"
  table_Render :: "string list \<Rightarrow> string list list \<Rightarrow> string"

definition sort_Slice_ok :: "Library \<Rightarrow> bool" where
  "sort_Slice_ok L =
     (\<forall>data. mset (sort_Slice L data) = mset data \<and>
             sorted_wrt (\<lambda>x y. \<not> (y ! 1 < x ! 1)) (sort_Slice L data))"

text \<open>The row that lines 171-178 append for one entry (given its permission string).\<close>

definition mkRow :: "Library \<Rightarrow> Config \<Rightarrow> string \<Rightarrow> fileStatInfo \<Rightarrow> string \<Rightarrow> string list" where
  "mkRow L a name fsi perms =
     (let lastMod = (if FileStatHumanize a then humanize_Time L (LastModified (si fsi))
                     else time_RFC3339 L (LastModified (si fsi)));
          size = (if FileStatHumanize a then humanize_Bytes L (Size (si fsi))
                  else Itoa (sint (Size (si fsi))))
      in [name, Path (si fsi), lastMod, perms, FileMode_String (Umask (si fsi)), size])"

text \<open>
  The two nested loops of lines 151-180. Their state is the slice \<open>targets\<close> and the map
  \<open>targetTabData\<close>. A target name enters both when its first entry is seen (lines
  166-169); reading a key that the map lacks gives the \<open>nil\<close> slice.
\<close>

type_synonym tabState = "string list \<times> (string \<rightharpoonup> string list list)"

fun statTable_entries :: "Library \<Rightarrow> Config \<Rightarrow> string \<Rightarrow> fileStatInfo list \<Rightarrow> tabState
    \<Rightarrow> panic + tabState" where
  "statTable_entries L a name [] st = Inr st"
| "statTable_entries L a name (fsi # rest) (targets, targetTabData) =
    (case permString fsi of
       Inl p \<Rightarrow> Inl p
     | Inr perms \<Rightarrow>
         (let (targets', tab') =
                (case targetTabData name of
                   None \<Rightarrow> (targets @ [name], targetTabData(name \<mapsto> []))
                 | Some data \<Rightarrow> (targets, targetTabData));
              old = (case tab' name of None \<Rightarrow> [] | Some data \<Rightarrow> data)
          in statTable_entries L a name rest
               (targets', tab'(name \<mapsto> old @ [mkRow L a name fsi perms]))))"

fun statTable_responses :: "Library \<Rightarrow> Config \<Rightarrow> fileStatResponse list \<Rightarrow> tabState
    \<Rightarrow> panic + tabState" where
  "statTable_responses L a [] st = Inr st"
| "statTable_responses L a (rsps # r) st =
    (case statTable_entries L a (TargetName rsps) (rsp rsps) st of
       Inl p \<Rightarrow> Inl p
     | Inr st' \<Rightarrow> statTable_responses L a r st')"

text \<open>
  Lines 181-198: every target's rows are sorted by their second column, the targets are
  sorted (any correct sort of strings gives the one sorted list), and the rows are
  appended to the table target by target. \<open>tableRows\<close> is the list of rows the table
  holds when it is rendered.
\<close>

definition tableRows :: "Library \<Rightarrow> Config \<Rightarrow> fileStatResponse list \<Rightarrow> panic + string list list" where
  "tableRows L a r =
     (case statTable_responses L a r ([], Map.empty) of
        Inl p \<Rightarrow> Inl p
      | Inr (targets, targetTabData) \<Rightarrow>
          (let sorted_data = (\<lambda>name. map_option (sort_Slice L) (targetTabData name))
           in Inr (concat (map (\<lambda>tName. case sorted_data tName of None \<Rightarrow> [] | Some data \<Rightarrow> data)
                              (sort targets)))))"

definition tableHeader :: "string list" where
  "tableHeader = [''Target Name'', ''Path'', ''LastModified'', ''Perm'', ''Umask'', ''Size'']"

definition statTable :: "Library \<Rightarrow> Config \<Rightarrow> fileStatResponse list \<Rightarrow> panic + string" where
  "statTable L a r =
     (case tableRows L a r of
        Inl p \<Rightarrow> Inl p
      | Inr rows \<Rightarrow> Inr (table_Render L tableHeader rows))"

section \<open>Example outcomes\<close>

text \<open>
  Target \<open>A\<close> has the files \<open>/etc/b\<close> (20 bytes) and \<open>/etc/a\<close> (10 bytes) and the directory
  \<open>/etc/ssl\<close>; \<open>B\<close> could not be connected to; the seed of \<open>C\<close> could not be listed; the
  walk of \<open>D\<close> found nothing.
\<close>

definition etc_entry :: "string \<Rightarrow> nat \<Rightarrow> bool \<Rightarrow> fileStatInfo" where
  "etc_entry p n d =
     \<lparr>si = \<lparr>Path = p, LastModified = 0, Permissions = 0x1ED, Size = of_nat n, Umask = 0x1FF\<rparr>,
      isDir = d\<rparr>"

definition rsp_A :: fileStatResponse where
  "rsp_A = \<lparr>TargetName = ''A'', Err = None,
            rsp = [etc_entry ''/etc/b'' 20 False, etc_entry ''/etc/ssl'' 0 True,
                   etc_entry ''/etc/a'' 10 False]\<rparr>"

definition rsp_B :: fileStatResponse where
  "rsp_B = \<lparr>TargetName = ''B'', Err = Some (ConnectFailed ''connection refused''), rsp = []\<rparr>"

definition rsp_C :: fileStatResponse where
  "rsp_C = \<lparr>TargetName = ''C'', Err = Some (StatFailed ''C'' ''/etc'' ''no such file''), rsp = []\<rparr>"

definition rsp_D :: fileStatResponse where
  "rsp_D = \<lparr>TargetName = ''D'', Err = None, rsp = []\<rparr>"

text \<open>A directory whose permission word carries the symbolic-link bit, with a full umask.\<close>

definition link_dir :: fileStatInfo where
  "link_dir = \<lparr>si = \<lparr>Path = ''/etc/alt'', LastModified = 0, Permissions = 0x080001A4, Size = 0,
     Umask = 0xFFFFFFFF\<rparr>, isDir = True\<rparr>"

section \<open>What the specification says of the table\<close>

text \<open>
  Auxiliary notions for stating the formatter's properties, not translations of source
  functions: the rows of one outcome in the order of its entries, the rows of all the
  outcomes that carry a given target name, and the order the specification asks of the
  table: ascending by target identity, and by path within a target.
\<close>

definition rows_of :: "Library \<Rightarrow> Config \<Rightarrow> fileStatResponse \<Rightarrow> string list list" where
  "rows_of L a r =
     map (\<lambda>fsi. mkRow L a (TargetName r) fsi
                  (case permString fsi of Inl p \<Rightarrow> [] | Inr perms \<Rightarrow> perms))
         (rsp r)"

definition tab_of :: "Library \<Rightarrow> Config \<Rightarrow> fileStatResponse list \<Rightarrow> string \<Rightarrow> string list list" where
  "tab_of L a rs name = concat (map (rows_of L a) (filter (\<lambda>r. TargetName r = name) rs))"

definition by_target_then_path :: "string list list \<Rightarrow> bool" where
  "by_target_then_path rows =
     sorted_wrt (\<lambda>x y. x ! 0 < y ! 0 \<or> (x ! 0 = y ! 0 \<and> \<not> (y ! 1 < x ! 1))) rows"

text \<open>
  One outcome's effect on the state of the loops of \<open>statTable\<close>, and the names of the
  outcomes that have entries, in arrival order.
\<close>

definition tab_step :: "Library \<Rightarrow> Config \<Rightarrow> tabState \<Rightarrow> fileStatResponse \<Rightarrow> tabState" where
  "tab_step L a st r =
     (if rsp r = [] then st
      else ((if snd st (TargetName r) = None then fst st @ [TargetName r] else fst st),
            (snd st)(TargetName r \<mapsto>
               (case snd st (TargetName r) of None \<Rightarrow> [] | Some d \<Rightarrow> d) @ rows_of L a r)))"

definition names_of :: "fileStatResponse list \<Rightarrow> string list" where
  "names_of rs = map TargetName (filter (\<lambda>r. rsp r \<noteq> []) rs)"

text \<open>
  A library for the examples: a stable sort by the second column for \<open>sort.Slice\<close>, and a
  renderer that writes the cells of each row, header first, one row per line.
\<close>

definition plain_Library :: Library where
  "plain_Library =
     \<lparr>humanize_Time = (\<lambda>w. ''a while ago''),
      humanize_Bytes = (\<lambda>w. Itoa (uint w) @ '' B''),
      time_RFC3339 = (\<lambda>w. ''1970-01-01T00:00:00Z''),
      sort_Slice = sort_key (\<lambda>row. row ! 1),
      table_Render = (\<lambda>header rows. concat (map (\<lambda>row. concat (map (\<lambda>c. c @ ''|'') row) @ ''/'')
                                               (header # rows)))\<rparr>"

text \<open>A second reachable target, \<open>E\<close>, with one file.\<close>

definition rsp_E :: fileStatResponse where
  "rsp_E = \<lparr>TargetName = ''E'', Err = None, rsp = [etc_entry ''/etc/hosts'' 7 False]\<rparr>"

section \<open>The fan-out of \<open>RunEFileStat\<close>\<close>

text \<open>
  Lines 49-81. One goroutine per target runs the function literal of lines 54-78. The
  goroutines share the channel \<open>responseChan\<close> and the variable \<open>err\<close>: line 60 assigns
  (\<open>=\<close>) to the \<open>err\<close> that line 44 declares in \<open>RunEFileStat\<close> and that the function
  literal captures, whereas line 70 declares (\<open>:=\<close>) an \<open>rsp\<close> and an \<open>err\<close> of the
  goroutine's own. Lines 61 and 65 read the shared variable.

  The model is an interleaving of the goroutines, one statement at a time. The channel
  is buffered for one outcome per target, so a send never blocks. A goroutine is at one
  of these points:
  \<^item> \<open>AtConnect\<close>: before line 60, the assignment of \<open>CreateGrpcClient\<close>'s result to \<open>err\<close>;
  \<^item> \<open>AtTest\<close>: before the test \<open>err != nil\<close> of line 61;
  \<^item> \<open>AtSendErr\<close>: before the send of lines 62-67, which reads \<open>err\<close> again;
  \<^item> \<open>AtWalk\<close>: before lines 70-77, the walk and the send of its outcome;
  \<^item> \<open>Finished\<close>: returned, \<open>wg.Done\<close> called; \<open>Hung\<close>: inside a walk that does not return;
  \<^item> \<open>Panicked\<close>: a goroutine whose connection failed has reached the walk, where
    \<open>t.client\<close> is \<open>nil\<close>, and the first stat call (line 113) has dereferenced it. The
    panic ends the process, so no goroutine moves any more. With no seed path there is
    no stat call, and the walk returns no entries.

  Only sequentially consistent interleavings are modelled. Go's memory model allows a
  racing read of \<open>err\<close> (an interface value of two words) to see still other values;
  these are left out.
\<close>

datatype pc = AtConnect | AtTest | AtSendErr | AtWalk | Finished | Hung | Panicked

record world =
  shared_err :: "error option"
  responseChan :: "fileStatResponse list"
  pcs :: "pc list"

definition init_world :: "Target list \<Rightarrow> world" where
  "init_world targets =
     \<lparr>shared_err = None, responseChan = [], pcs = replicate (length targets) AtConnect\<rparr>"

definition goroutine_step :: "nat \<Rightarrow> Config \<Rightarrow> Target list \<Rightarrow> nat \<Rightarrow> world \<Rightarrow> world" where
  "goroutine_step n a targets i w =
     (if i < length targets \<and> i < length (pcs w) \<and> Panicked \<notin> set (pcs w) then
        (let t = targets ! i in
         case pcs w ! i of
           AtConnect \<Rightarrow>
             w\<lparr>shared_err := map_option ConnectFailed (CreateGrpcClient t),
               pcs := (pcs w)[i := AtTest]\<rparr>
         | AtTest \<Rightarrow>
             w\<lparr>pcs := (pcs w)[i := (if shared_err w \<noteq> None then AtSendErr else AtWalk)]\<rparr>
         | AtSendErr \<Rightarrow>
             w\<lparr>responseChan := responseChan w @
                   [\<lparr>TargetName = Address t, Err = shared_err w, rsp = []\<rparr>],
               pcs := (pcs w)[i := Finished]\<rparr>
         | AtWalk \<Rightarrow>
             (if CreateGrpcClient t \<noteq> None \<and> FileStatPath a \<noteq> [] then
                w\<lparr>pcs := (pcs w)[i := Panicked]\<rparr>
              else case FileStat n a t [] of
                None \<Rightarrow> w\<lparr>pcs := (pcs w)[i := Hung]\<rparr>
              | Some (Inl e, tr) \<Rightarrow>
                  w\<lparr>responseChan := responseChan w @
                        [\<lparr>TargetName = Address t, Err = Some e, rsp = []\<rparr>],
                    pcs := (pcs w)[i := Finished]\<rparr>
              | Some (Inr fsi, tr) \<Rightarrow>
                  w\<lparr>responseChan := responseChan w @
                        [\<lparr>TargetName = Address t, Err = None, rsp = fsi\<rparr>],
                    pcs := (pcs w)[i := Finished]\<rparr>)
         | Finished \<Rightarrow> w
         | Hung \<Rightarrow> w
         | Panicked \<Rightarrow> w)
      else w)"

text \<open>A schedule names, step by step, the goroutine that moves.\<close>

fun run :: "nat \<Rightarrow> Config \<Rightarrow> Target list \<Rightarrow> nat list \<Rightarrow> world \<Rightarrow> world" where
  "run n a targets [] w = w"
| "run n a targets (i # schedule) w = run n a targets schedule (goroutine_step n a targets i w)"

text \<open>
  \<open>RunEFileStat\<close> for the targets that \<open>GetTargets\<close> returned, under a schedule: once every
  goroutine has finished, \<open>wg.Wait\<close> returns, the channel is closed and drained, the table
  is printed and the errors are handed to \<open>handleErrs\<close>. \<open>None\<close>: the schedule leaves a
  goroutine unfinished, or the process has panicked.
\<close>

definition RunEFileStat :: "nat \<Rightarrow> Library \<Rightarrow> Config \<Rightarrow> Target list \<Rightarrow> nat list
    \<Rightarrow> ((panic + string) \<times> error list) option" where
  "RunEFileStat n L a targets schedule =
     (let w = run n a targets schedule (init_world targets) in
      if list_all (\<lambda>p. p = Finished) (pcs w) then
        (case aggregate (responseChan w) [] [] of
           (errs, result) \<Rightarrow> Some (statTable L a result, errs))
      else None)"

text \<open>
  Two targets: the connection to \<open>tgt_A\<close> succeeds, the connection to \<open>tgt_B\<close> is
  refused, so the \<open>client\<close> field of \<open>tgt_B\<close> is never used.
\<close>

definition tgt_A :: Target where
  "tgt_A = \<lparr>Address = ''A'', CreateGrpcClient = None, client = svc_var\<rparr>"

definition tgt_B :: Target where
  "tgt_B = \<lparr>Address = ''B'', CreateGrpcClient = Some ''connection refused'', client = svc_var\<rparr>"

section \<open>The code's walker and its accumulator-free view agree\<close>

lemma loop_step:
  assumes F: "\<And>p tr. fileStat n a t p tr = map_option (\<lambda>(r, d). (r, tr @ d)) (stat_walk n a t p)"
  shows "fileStat_loop n a t sis rsps tr =
           map_option (\<lambda>(out, d). (rsps @ out, tr @ d)) (walk n a t sis)"
proof (induction sis arbitrary: rsps tr)
  case Nil
  show ?case by simp
next
  case (Cons s rest)
  show ?case
  proof (cases "IsDir (client t) (Path s)")
    case (Inl e)
    then show ?thesis
      by (cases "walk n a t rest") (auto simp: Cons.IH)
  next
    case (Inr b)
    show ?thesis
    proof (cases "b \<and> FileStatRecursive a")
      case False
      with Inr show ?thesis
        by (cases "walk n a t rest") (auto simp: Cons.IH)
    next
      case True
      show ?thesis
      proof (cases "stat_walk n a t (Path s)")
        case None
        with Inr True show ?thesis by (simp add: F)
      next
        case (Some rd)
        obtain r d1 where rd: "rd = (r, d1)" by (cases rd)
        show ?thesis
          using Inr True Some rd
          by (cases r; cases "walk n a t rest") (auto simp: F Cons.IH)
      qed
    qed
  qed
qed

lemma fileStat_stat_walk:
  "fileStat n a t p tr = map_option (\<lambda>(r, d). (r, tr @ d)) (stat_walk n a t p)"
proof (induction n arbitrary: p tr)
  case 0
  show ?case by simp
next
  case (Suc n)
  have L: "\<And>sis rsps tr. fileStat_loop n a t sis rsps tr =
           map_option (\<lambda>(out, d). (rsps @ out, tr @ d)) (walk n a t sis)"
    by (rule loop_step) (rule Suc.IH)
  show ?case
  proof (cases "Stat (client t) p")
    case (Inl e)
    then show ?thesis by simp
  next
    case (Inr sis)
    then show ?thesis
      by (cases "walk n a t sis") (auto simp: L)
  qed
qed

lemma fileStat_loop_walk:
  "fileStat_loop n a t sis rsps tr =
     map_option (\<lambda>(out, d). (rsps @ out, tr @ d)) (walk n a t sis)"
  by (rule loop_step) (rule fileStat_stat_walk)

section \<open>The depth bound\<close>

text \<open>
  A walk that returns within a bound returns the same outcome within every larger one:
  the bound decides only whether the model sees the walk return, never what it returns.
\<close>

lemma walk_Suc_fuel:
  "(\<forall>r. stat_walk n a t p = Some r \<longrightarrow> stat_walk (Suc n) a t p = Some r)"
  "(\<forall>r. walk n a t sis = Some r \<longrightarrow> walk (Suc n) a t sis = Some r)"
proof (induction n a t p and n a t sis rule: stat_walk_walk.induct)
  case (1 a t path)
  show ?case by simp
next
  case (2 n a t path)
  show ?case
  proof (cases "Stat (client t) path")
    case (Inl e)
    then show ?thesis by simp
  next
    case (Inr stats)
    with 2[OF Inr] show ?thesis
      by (cases "walk n a t stats") auto
  qed
next
  case (3 n a t)
  show ?case by simp
next
  case (4 n a t s rest)
  show ?case
  proof (cases "IsDir (client t) (Path s)")
    case (Inl e)
    with 4(1)[OF Inl] show ?thesis
      by (cases "walk n a t rest") auto
  next
    case (Inr b)
    show ?thesis
    proof (cases "b \<and> FileStatRecursive a")
      case False
      with Inr 4(4)[OF Inr False] show ?thesis
        by (cases "walk n a t rest") auto
    next
      case True
      show ?thesis
      proof (cases "stat_walk n a t (Path s)")
        case None
        with Inr True show ?thesis by simp
      next
        case (Some rd)
        obtain r d1 where rd: "rd = (r, d1)" by (cases rd)
        from 4(2)[OF Inr True] Some have up: "stat_walk (Suc n) a t (Path s) = Some rd" by blast
        from 4(3)[OF Inr True Some[unfolded rd] refl]
        have rest: "\<forall>r. walk n a t rest = Some r \<longrightarrow> walk (Suc n) a t rest = Some r" .
        show ?thesis
        proof (cases "walk n a t rest")
          case None
          with Inr True Some rd show ?thesis by simp
        next
          case (Some od)
          with rest have "walk (Suc n) a t rest = Some od" by blast
          with Inr True \<open>stat_walk n a t (Path s) = Some rd\<close> up rd Some show ?thesis
            by (simp del: stat_walk.simps)
        qed
      qed
    qed
  qed
qed

lemma fileStat_more_fuel:
  "fileStat n a t p tr = Some r \<Longrightarrow> fileStat (n + k) a t p tr = Some r"
proof (induction k)
  case 0
  then show ?case by simp
next
  case (Suc k)
  then obtain x where "stat_walk (n + k) a t p = Some x"
    and r: "r = (case x of (r, d) \<Rightarrow> (r, tr @ d))"
    by (auto simp: fileStat_stat_walk)
  with walk_Suc_fuel(1) have "stat_walk (Suc (n + k)) a t p = Some x" by blast
  with r show ?case by (simp add: fileStat_stat_walk del: stat_walk.simps)
qed

lemma FileStat_loop_more_fuel:
  "FileStat_loop n a t ps rsps tr = Some r \<Longrightarrow> FileStat_loop (n + k) a t ps rsps tr = Some r"
proof (induction ps arbitrary: rsps tr)
  case Nil
  then show ?case by simp
next
  case (Cons p ps)
  from Cons.prems obtain x where x: "fileStat n a t p tr = Some x"
    by (auto split: option.splits)
  from fileStat_more_fuel[OF x] have up: "fileStat (n + k) a t p tr = Some x" .
  obtain res tr1 where xx: "x = (res, tr1)" by (cases x)
  show ?case
  proof (cases res)
    case (Inl e)
    with Cons.prems x up xx show ?thesis by auto
  next
    case (Inr fsi)
    with Cons.prems x xx have "FileStat_loop n a t ps (rsps @ fsi) tr1 = Some r" by simp
    from Cons.IH[OF this] up xx Inr show ?thesis by simp
  qed
qed

lemma FileStat_more_fuel:
  "FileStat n a t tr = Some r \<Longrightarrow> FileStat (n + k) a t tr = Some r"
  unfolding FileStat_def by (rule FileStat_loop_more_fuel)

section \<open>C1: a failed directory probe\<close>

lemmas ex_defs = eval_nat_numeral mkStat_def var_Stat_def svc_var_def svc_probe_down_def
  svc_var2_def tgt_def cfg_def

lemma walk_classified:
  "(\<forall>out d. stat_walk n a t p = Some (Inr out, d) \<longrightarrow>
      (\<forall>x\<in>set out. IsDir (client t) (Path (si x)) = Inr (isDir x)))"
  "(\<forall>out d. walk n a t sis = Some (out, d) \<longrightarrow>
      (\<forall>x\<in>set out. IsDir (client t) (Path (si x)) = Inr (isDir x)))"
proof (induction n a t p and n a t sis rule: stat_walk_walk.induct)
  case (1 a t path)
  show ?case by simp
next
  case (2 n a t path)
  then show ?case by (auto split: sum.splits)
next
  case (3 n a t)
  show ?case by simp
next
  case (4 n a t s rest)
  show ?case
  proof (cases "IsDir (client t) (Path s)")
    case (Inl e)
    with 4(1) show ?thesis by auto
  next
    case (Inr b)
    show ?thesis
    proof (cases "b \<and> FileStatRecursive a")
      case False
      with Inr 4(4) show ?thesis by auto
    next
      case True
      show ?thesis
      proof (intro allI impI)
        fix out d
        assume run: "walk n a t (s # rest) = Some (out, d)"
        from run Inr True obtain r d1 out2 d2 where
          nested: "stat_walk n a t (Path s) = Some (r, d1)"
          and rest: "walk n a t rest = Some (out2, d2)"
          and out: "out = \<lparr>si = s, isDir = b\<rparr> # (case r of Inl err \<Rightarrow> [] | Inr fsi \<Rightarrow> fsi) @ out2"
          by (auto split: option.splits)
        have "\<forall>x\<in>set out2. IsDir (client t) (Path (si x)) = Inr (isDir x)"
          using 4(3)[OF Inr True nested refl] rest by blast
        moreover have "\<forall>x\<in>set (case r of Inl err \<Rightarrow> [] | Inr fsi \<Rightarrow> fsi).
            IsDir (client t) (Path (si x)) = Inr (isDir x)"
          using 4(2)[OF Inr True] nested by (cases r) auto
        ultimately show "\<forall>x\<in>set out. IsDir (client t) (Path (si x)) = Inr (isDir x)"
          using out Inr by auto
      qed
    qed
  qed
qed

text \<open>
  C1, as the code has it. When the directory probe \<open>isDir\<close> fails for an entry, the loop
  logs and continues (lines 123-126) before the entry is appended: the entry is left out
  of the result and is not descended into, and the loop goes on with the next entry of
  the same stat call. Hence every entry of a walk's result is one whose probe succeeded,
  and its \<open>isDir\<close> field is the probe's answer.
\<close>

theorem isDir_error_drops_entry:
  "(IsDir (client t) (Path s) = Inl e \<longrightarrow>
      fileStat_loop n a t (s # rest) rsps tr =
        fileStat_loop n a t rest rsps (tr @ [IsDirCall (Path s)])) \<and>
   (fileStat n a t p tr = Some (Inr out, tr') \<longrightarrow>
      (\<forall>x\<in>set out. IsDir (client t) (Path (si x)) = Inr (isDir x)))"
proof (intro conjI impI)
  assume "IsDir (client t) (Path s) = Inl e"
  then show "fileStat_loop n a t (s # rest) rsps tr =
      fileStat_loop n a t rest rsps (tr @ [IsDirCall (Path s)])"
    by simp
next
  assume "fileStat n a t p tr = Some (Inr out, tr')"
  then obtain d where "stat_walk n a t p = Some (Inr out, d)"
    by (auto simp: fileStat_stat_walk)
  with walk_classified(1) show "\<forall>x\<in>set out. IsDir (client t) (Path (si x)) = Inr (isDir x)"
    by blast
qed

text \<open>
  The same theorem at a concrete service: the probe fails for \<open>/var/log\<close>, the walk of
  \<open>/var\<close> returns \<open>/var/run\<close> alone.
\<close>

theorem isDir_error_drops_entry_witness:
  "IsDir (client (tgt svc_probe_down)) (Path (mkStat ''/var/log'')) = Inl ''unavailable''
   \<and> fileStat_loop 2 (cfg [''/var''] True) (tgt svc_probe_down)
        [mkStat ''/var/log'', mkStat ''/var/run''] [] [] =
       fileStat_loop 2 (cfg [''/var''] True) (tgt svc_probe_down)
        [mkStat ''/var/run''] [] [IsDirCall ''/var/log'']
   \<and> fileStat 2 (cfg [''/var''] True) (tgt svc_probe_down) ''/var'' [] =
       Some (Inr [\<lparr>si = mkStat ''/var/run'', isDir = False\<rparr>],
             [StatCall ''/var'', IsDirCall ''/var/log'', IsDirCall ''/var/run''])
   \<and> IsDir (client (tgt svc_probe_down)) (Path (si \<lparr>si = mkStat ''/var/run'', isDir = False\<rparr>)) =
       Inr (isDir \<lparr>si = mkStat ''/var/run'', isDir = False\<rparr>)"
proof -
  have probe: "IsDir (client (tgt svc_probe_down)) (Path (mkStat ''/var/log'')) = Inl ''unavailable''"
    by (simp add: ex_defs)
  have run: "fileStat 2 (cfg [''/var''] True) (tgt svc_probe_down) ''/var'' [] =
       Some (Inr [\<lparr>si = mkStat ''/var/run'', isDir = False\<rparr>],
             [StatCall ''/var'', IsDirCall ''/var/log'', IsDirCall ''/var/run''])"
    by (simp add: ex_defs)
  note inst = isDir_error_drops_entry [where t = "tgt svc_probe_down" and s = "mkStat ''/var/log''"
      and e = "''unavailable''" and n = 2 and a = "cfg [''/var''] True"
      and rest = "[mkStat ''/var/run'']" and rsps = "[]" and tr = "[]" and p = "''/var''"
      and out = "[\<lparr>si = mkStat ''/var/run'', isDir = False\<rparr>]"
      and tr' = "[StatCall ''/var'', IsDirCall ''/var/log'', IsDirCall ''/var/run'']"]
  from inst probe run show ?thesis by (simp add: mkStat_def)
qed

text \<open>
  C1 as the specification words it (the entry is kept in the result when its probe
  fails) is false: \<open>/var\<close> lists \<open>/var/log\<close> and \<open>/var/run\<close>, the probe fails for
  \<open>/var/log\<close>, and \<open>/var/log\<close> is not in the result.
\<close>

theorem isDir_error_entry_kept_counterexample:
  "Stat (client (tgt svc_probe_down)) ''/var'' = Inr [mkStat ''/var/log'', mkStat ''/var/run'']
   \<and> IsDir (client (tgt svc_probe_down)) (Path (mkStat ''/var/log'')) = Inl ''unavailable''
   \<and> fileStat 2 (cfg [''/var''] True) (tgt svc_probe_down) ''/var'' [] =
       Some (Inr [\<lparr>si = mkStat ''/var/run'', isDir = False\<rparr>],
             [StatCall ''/var'', IsDirCall ''/var/log'', IsDirCall ''/var/run''])
   \<and> ''/var/log'' \<notin> set (map (Path \<circ> si) [\<lparr>si = mkStat ''/var/run'', isDir = False\<rparr>])"
  by (simp add: ex_defs)

section \<open>C2: which stat errors are fatal\<close>

lemma FileStat_loop_append:
  "FileStat_loop n a t (ps @ qs) rsps tr =
     (case FileStat_loop n a t ps rsps tr of
        None \<Rightarrow> None
      | Some (Inl err, tr') \<Rightarrow> Some (Inl err, tr')
      | Some (Inr r, tr') \<Rightarrow> FileStat_loop n a t qs r tr')"
proof (induction ps arbitrary: rsps tr)
  case Nil
  show ?case by simp
next
  case (Cons p ps)
  show ?case
    by (simp add: Cons.IH split: option.splits sum.splits prod.splits)
qed

lemma fileStat_failure_is_own_stat:
  "fileStat n a t p tr = Some (Inl e, tr') \<Longrightarrow>
     \<exists>m. Stat (client t) p = Inl m \<and> e = StatFailed (Address t) p m"
  by (cases n) (auto split: sum.splits option.splits)

lemma FileStat_loop_failure_is_seed:
  "FileStat_loop n a t ps rsps tr = Some (Inl e, tr') \<Longrightarrow>
     \<exists>p\<in>set ps. \<exists>m. Stat (client t) p = Inl m \<and> e = StatFailed (Address t) p m"
proof (induction ps arbitrary: rsps tr)
  case Nil
  then show ?case by simp
next
  case (Cons p ps)
  show ?case
  proof (cases "fileStat n a t p tr")
    case None
    with Cons.prems show ?thesis by simp
  next
    case (Some rd)
    obtain r d where rd: "rd = (r, d)" by (cases rd)
    show ?thesis
    proof (cases r)
      case (Inl e')
      with Some rd Cons.prems have "e' = e" "fileStat n a t p tr = Some (Inl e, d)" by auto
      from fileStat_failure_is_own_stat[OF this(2)] show ?thesis by auto
    next
      case (Inr fsi)
      with Some rd Cons.prems have "FileStat_loop n a t ps (rsps @ fsi) d = Some (Inl e, tr')"
        by simp
      from Cons.IH[OF this] show ?thesis by auto
    qed
  qed
qed

text \<open>
  C2. A stat error of a seed path's own (top-level) stat call is fatal: once the seeds
  before it have been walked, \<open>FileStat\<close> returns that error and no entries, whatever
  they produced and whatever seeds follow; and \<open>FileStat\<close> fails in no other way than by
  the stat error of a seed. A stat error inside the recursion is not fatal: the loop
  keeps the directory entry, skips its subtree and goes on with the remaining siblings
  exactly as if the entry had no children, and a \<open>fileStat\<close> whose own stat call
  succeeded never returns an error.
\<close>

theorem stat_error_fatal_only_at_top_level:
  "(FileStat_loop (Suc n) a t ps [] tr = Some (Inr r, tr1) \<and> Stat (client t) p = Inl m \<longrightarrow>
      FileStat_loop (Suc n) a t (ps @ p # qs) [] tr =
        Some (Inl (StatFailed (Address t) p m), tr1 @ [StatCall p])) \<and>
   (FileStat k a t tr = Some (Inl e, tr') \<longrightarrow>
      (\<exists>q\<in>set (FileStatPath a). \<exists>m'. Stat (client t) q = Inl m' \<and> e = StatFailed (Address t) q m')) \<and>
   (IsDir (client t) (Path s) = Inr True \<and> FileStatRecursive a \<and> Stat (client t) (Path s) = Inl m2 \<longrightarrow>
      fileStat_loop (Suc n) a t (s # rest) rsps tr =
        fileStat_loop (Suc n) a t rest (rsps @ [\<lparr>si = s, isDir = True\<rparr>])
          (tr @ [IsDirCall (Path s), StatCall (Path s)])) \<and>
   (Stat (client t) p2 = Inr sis \<longrightarrow> fileStat k a t p2 tr \<noteq> Some (Inl e, tr'))"
proof (intro conjI impI)
  assume "FileStat_loop (Suc n) a t ps [] tr = Some (Inr r, tr1) \<and> Stat (client t) p = Inl m"
  then show "FileStat_loop (Suc n) a t (ps @ p # qs) [] tr =
      Some (Inl (StatFailed (Address t) p m), tr1 @ [StatCall p])"
    by (simp add: FileStat_loop_append)
next
  assume "FileStat k a t tr = Some (Inl e, tr')"
  then show "\<exists>q\<in>set (FileStatPath a). \<exists>m'. Stat (client t) q = Inl m' \<and> e = StatFailed (Address t) q m'"
    unfolding FileStat_def by (rule FileStat_loop_failure_is_seed)
next
  assume "IsDir (client t) (Path s) = Inr True \<and> FileStatRecursive a \<and> Stat (client t) (Path s) = Inl m2"
  then show "fileStat_loop (Suc n) a t (s # rest) rsps tr =
        fileStat_loop (Suc n) a t rest (rsps @ [\<lparr>si = s, isDir = True\<rparr>])
          (tr @ [IsDirCall (Path s), StatCall (Path s)])"
    by simp
next
  assume "Stat (client t) p2 = Inr sis"
  then show "fileStat k a t p2 tr \<noteq> Some (Inl e, tr')"
    using fileStat_failure_is_own_stat[of k a t p2 tr e tr'] by auto
qed

text \<open>
  The theorem at a concrete service: the seeds are \<open>/var\<close>, \<open>/x\<close>, \<open>/var\<close>; \<open>/x\<close> is
  unknown (fatal), the directory \<open>/var/run\<close> cannot be listed (not fatal).
\<close>

theorem stat_error_fatal_only_at_top_level_witness:
  "FileStat_loop (Suc 2) (cfg [''/var'', ''/x'', ''/var''] True) (tgt svc_var2) [''/var''] [] [] =
     Some (Inr [\<lparr>si = mkStat ''/var/log'', isDir = True\<rparr>,
                \<lparr>si = mkStat ''/var/log/syslog'', isDir = False\<rparr>,
                \<lparr>si = mkStat ''/var/run'', isDir = True\<rparr>],
           [StatCall ''/var'', IsDirCall ''/var/log'', StatCall ''/var/log'',
            IsDirCall ''/var/log/syslog'', IsDirCall ''/var/run'', StatCall ''/var/run''])
   \<and> Stat (client (tgt svc_var2)) ''/x'' = Inl ''no such file''
   \<and> FileStat_loop (Suc 2) (cfg [''/var'', ''/x'', ''/var''] True) (tgt svc_var2)
        ([''/var''] @ ''/x'' # [''/var'']) [] [] =
     Some (Inl (StatFailed (Address (tgt svc_var2)) ''/x'' ''no such file''),
           [StatCall ''/var'', IsDirCall ''/var/log'', StatCall ''/var/log'',
            IsDirCall ''/var/log/syslog'', IsDirCall ''/var/run'', StatCall ''/var/run'']
           @ [StatCall ''/x''])
   \<and> FileStat 3 (cfg [''/var'', ''/x'', ''/var''] True) (tgt svc_var2) [] =
     Some (Inl (StatFailed ''r1:57400'' ''/x'' ''no such file''),
           [StatCall ''/var'', IsDirCall ''/var/log'', StatCall ''/var/log'',
            IsDirCall ''/var/log/syslog'', IsDirCall ''/var/run'', StatCall ''/var/run'',
            StatCall ''/x''])
   \<and> (\<exists>q\<in>set (FileStatPath (cfg [''/var'', ''/x'', ''/var''] True)). \<exists>m'.
         Stat (client (tgt svc_var2)) q = Inl m' \<and>
         StatFailed ''r1:57400'' ''/x'' ''no such file'' = StatFailed (Address (tgt svc_var2)) q m')
   \<and> IsDir (client (tgt svc_var2)) (Path (mkStat ''/var/run'')) = Inr True
   \<and> FileStatRecursive (cfg [''/var'', ''/x'', ''/var''] True)
   \<and> Stat (client (tgt svc_var2)) (Path (mkStat ''/var/run'')) = Inl ''no such file''
   \<and> fileStat_loop (Suc 2) (cfg [''/var'', ''/x'', ''/var''] True) (tgt svc_var2)
        (mkStat ''/var/run'' # [mkStat ''/var/log'']) [] [] =
      fileStat_loop (Suc 2) (cfg [''/var'', ''/x'', ''/var''] True) (tgt svc_var2)
        [mkStat ''/var/log''] ([] @ [\<lparr>si = mkStat ''/var/run'', isDir = True\<rparr>])
        ([] @ [IsDirCall (Path (mkStat ''/var/run'')), StatCall (Path (mkStat ''/var/run''))])
   \<and> Stat (client (tgt svc_var2)) ''/var'' = Inr [mkStat ''/var/log'', mkStat ''/var/run'']
   \<and> fileStat 3 (cfg [''/var'', ''/x'', ''/var''] True) (tgt svc_var2) ''/var'' [] \<noteq>
        Some (Inl (StatFailed ''r1:57400'' ''/x'' ''no such file''),
           [StatCall ''/var'', IsDirCall ''/var/log'', StatCall ''/var/log'',
            IsDirCall ''/var/log/syslog'', IsDirCall ''/var/run'', StatCall ''/var/run'',
            StatCall ''/x''])"
proof -
  let ?a = "cfg [''/var'', ''/x'', ''/var''] True"
  let ?t = "tgt svc_var2"
  let ?r = "[\<lparr>si = mkStat ''/var/log'', isDir = True\<rparr>,
             \<lparr>si = mkStat ''/var/log/syslog'', isDir = False\<rparr>,
             \<lparr>si = mkStat ''/var/run'', isDir = True\<rparr>]"
  let ?tr1 = "[StatCall ''/var'', IsDirCall ''/var/log'', StatCall ''/var/log'',
            IsDirCall ''/var/log/syslog'', IsDirCall ''/var/run'', StatCall ''/var/run'']"
  let ?tr2 = "[StatCall ''/var'', IsDirCall ''/var/log'', StatCall ''/var/log'',
            IsDirCall ''/var/log/syslog'', IsDirCall ''/var/run'', StatCall ''/var/run'',
            StatCall ''/x'']"
  have h1: "FileStat_loop (Suc 2) ?a ?t [''/var''] [] [] = Some (Inr ?r, ?tr1)"
    by (simp add: ex_defs)
  have h2: "Stat (client ?t) ''/x'' = Inl ''no such file''"
    by (simp add: ex_defs)
  have h3: "FileStat 3 ?a ?t [] =
     Some (Inl (StatFailed ''r1:57400'' ''/x'' ''no such file''), ?tr2)"
    by (simp add: FileStat_def ex_defs)
  have h4: "IsDir (client ?t) (Path (mkStat ''/var/run'')) = Inr True"
    and h5: "FileStatRecursive ?a"
    and h6: "Stat (client ?t) (Path (mkStat ''/var/run'')) = Inl ''no such file''"
    and h7: "Stat (client ?t) ''/var'' = Inr [mkStat ''/var/log'', mkStat ''/var/run'']"
    by (simp_all add: ex_defs)
  note inst = stat_error_fatal_only_at_top_level [where n = 2 and a = ?a and t = ?t
      and ps = "[''/var'']" and tr = "[]" and r = ?r and ?tr1.0 = ?tr1 and p = "''/x''"
      and m = "''no such file''" and qs = "[''/var'']" and k = 3
      and e = "StatFailed ''r1:57400'' ''/x'' ''no such file''"
      and tr' = ?tr2 and s = "mkStat ''/var/run''"
      and ?m2.0 = "''no such file''" and rest = "[mkStat ''/var/log'']" and rsps = "[]"
      and ?p2.0 = "''/var''" and sis = "[mkStat ''/var/log'', mkStat ''/var/run'']"]
  from inst h1 h2 have c1: "FileStat_loop (Suc 2) ?a ?t ([''/var''] @ ''/x'' # [''/var'']) [] [] =
     Some (Inl (StatFailed (Address ?t) ''/x'' ''no such file''), ?tr1 @ [StatCall ''/x''])"
    by blast
  from inst h3 have c2: "\<exists>q\<in>set (FileStatPath ?a). \<exists>m'.
         Stat (client ?t) q = Inl m' \<and>
         StatFailed ''r1:57400'' ''/x'' ''no such file'' = StatFailed (Address ?t) q m'"
    by blast
  from inst h4 h5 h6 have c3: "fileStat_loop (Suc 2) ?a ?t
        (mkStat ''/var/run'' # [mkStat ''/var/log'']) [] [] =
      fileStat_loop (Suc 2) ?a ?t
        [mkStat ''/var/log''] ([] @ [\<lparr>si = mkStat ''/var/run'', isDir = True\<rparr>])
        ([] @ [IsDirCall (Path (mkStat ''/var/run'')), StatCall (Path (mkStat ''/var/run''))])"
    by blast
  from inst h7 have c4: "fileStat 3 ?a ?t ''/var'' [] \<noteq>
        Some (Inl (StatFailed ''r1:57400'' ''/x'' ''no such file''), ?tr2)"
    by blast
  from h1 h2 c1 h3 c2 h4 h5 h6 c3 h7 c4 show ?thesis
    by (intro conjI)
qed

section \<open>C6: the result is the pre-order listing of the tree\<close>

lemma walk_explore:
  "(\<forall>stats. Stat (client t) p = Inr stats \<longrightarrow>
      map_option fst (stat_walk n a t p) =
        (case n of 0 \<Rightarrow> None
         | Suc m \<Rightarrow> map_option (\<lambda>f. Inr (concat (map preorder f))) (explore m a t stats)))"
  "map_option fst (walk n a t sis) =
      map_option (\<lambda>f. concat (map preorder f)) (explore n a t sis)"
proof (induction n a t p and n a t sis rule: stat_walk_walk.induct)
  case (1 a t path)
  show ?case by simp
next
  case (2 n a t path)
  show ?case
  proof (intro allI impI)
    fix stats assume st: "Stat (client t) path = Inr stats"
    from 2[OF st] st show "map_option fst (stat_walk (Suc n) a t path) =
        (case Suc n of 0 \<Rightarrow> None
         | Suc m \<Rightarrow> map_option (\<lambda>f. Inr (concat (map preorder f))) (explore m a t stats))"
      by (cases "walk n a t stats"; cases "explore n a t stats") auto
  qed
next
  case (3 n a t)
  show ?case by simp
next
  case (4 n a t s rest)
  show ?case
  proof (cases "IsDir (client t) (Path s)")
    case (Inl e)
    with 4(1)[OF Inl] show ?thesis
      by (cases "walk n a t rest"; cases "explore n a t rest") auto
  next
    case (Inr b)
    show ?thesis
    proof (cases "b \<and> FileStatRecursive a")
      case False
      with Inr 4(4)[OF Inr False] show ?thesis
        by (cases "walk n a t rest"; cases "explore n a t rest") auto
    next
      case True
      show ?thesis
      proof (cases "stat_walk n a t (Path s)")
        case None
        then have "n = 0 \<or> (\<exists>m stats. n = Suc m \<and> Stat (client t) (Path s) = Inr stats
             \<and> explore m a t stats = None)"
          using 4(2)[OF Inr True]
          by (cases n; cases "Stat (client t) (Path s)") auto
        with None Inr True show ?thesis by auto
      next
        case (Some rd)
        obtain r d1 where rd: "rd = (r, d1)" by (cases rd)
        from Some obtain m where n: "n = Suc m" by (cases n) auto
        have kids: "(case Stat (client t) (Path s) of
                          Inl err \<Rightarrow> Some []
                        | Inr kids \<Rightarrow> explore m a t kids) =
            Some (case Stat (client t) (Path s) of Inl err \<Rightarrow> [] | Inr kids \<Rightarrow> the (explore m a t kids))
          \<and> (case r of Inl err \<Rightarrow> [] | Inr fsi \<Rightarrow> fsi) =
             concat (map preorder (case Stat (client t) (Path s) of Inl err \<Rightarrow> [] | Inr kids \<Rightarrow> the (explore m a t kids)))"
        proof (cases "Stat (client t) (Path s)")
          case (Inl e)
          with Some rd n show ?thesis by auto
        next
          case (Inr kids)
          from 4(2)[OF \<open>IsDir (client t) (Path s) = Inr b\<close> True] Inr Some rd n
          show ?thesis by (cases "explore m a t kids") auto
        qed
        from 4(3)[OF Inr True Some[unfolded rd] refl]
        have rest: "map_option fst (walk n a t rest) =
            map_option (\<lambda>f. concat (map preorder f)) (explore n a t rest)" .
        show ?thesis
          using Inr True Some rd n kids rest
          by (cases "walk (Suc m) a t rest"; cases "explore (Suc m) a t rest") auto
      qed
    qed
  qed
qed

lemma FileStat_loop_seeds_preorder:
  "map_option fst (FileStat_loop n a t ps rsps tr) =
     map_option (\<lambda>r. case r of Inl e \<Rightarrow> Inl e | Inr out \<Rightarrow> Inr (rsps @ out))
       (seeds_preorder n a t ps)"
proof (induction ps arbitrary: rsps tr)
  case Nil
  show ?case by simp
next
  case (Cons p ps)
  show ?case
  proof (cases n)
    case 0
    then show ?thesis by simp
  next
    case (Suc m)
    show ?thesis
    proof (cases "Stat (client t) p")
      case (Inl e)
      with Suc show ?thesis by simp
    next
      case (Inr stats)
      have sw: "map_option fst (stat_walk (Suc m) a t p) =
          map_option (\<lambda>f. Inr (concat (map preorder f))) (explore m a t stats)"
        using walk_explore(1)[of t p "Suc m" a] Inr by simp
      show ?thesis
      proof (cases "explore m a t stats")
        case None
        with sw have "stat_walk (Suc m) a t p = None" by simp
        with None Inr Suc show ?thesis by (simp add: fileStat_stat_walk)
      next
        case (Some f)
        with sw obtain d where "stat_walk (Suc m) a t p = Some (Inr (concat (map preorder f)), d)"
          by (cases "stat_walk (Suc m) a t p") auto
        then have fs: "fileStat n a t p tr = Some (Inr (concat (map preorder f)), tr @ d)"
          using Suc by (simp add: fileStat_stat_walk)
        show ?thesis
          using Some Inr Suc fs Cons.IH[of "rsps @ concat (map preorder f)" "tr @ d"]
          by (cases "seeds_preorder (Suc m) a t ps") (auto split: sum.splits)
      qed
    qed
  qed
qed

text \<open>
  C6. The result list of \<open>FileStat\<close> is a depth-first pre-order traversal: it is the
  seeds' contributions in the order the caller gave the seeds, each the pre-order
  listing of the forest under the seed's stat answer, where the entries of one stat
  answer keep their order and the entries obtained by recursing into a directory entry
  stand right after that entry and before its later siblings. The equation also says
  that the code returns exactly when the specified walk does, with the same outcome.
\<close>

theorem FileStat_is_preorder_walk:
  "map_option fst (FileStat n a t tr) = seeds_preorder n a t (FileStatPath a)"
proof -
  have "map_option (case_sum Inl Inr) x = x" for x :: "(error + fileStatInfo list) option"
    by (cases x) (auto split: sum.splits)
  then show ?thesis
    unfolding FileStat_def FileStat_loop_seeds_preorder by simp
qed

text \<open>The forest and the walk at the example service.\<close>

lemma explore_example:
  "explore 1 (cfg [''/var''] True) (tgt svc_var) [mkStat ''/var/log'', mkStat ''/var/run''] =
     Some [DNode \<lparr>si = mkStat ''/var/log'', isDir = True\<rparr>
             [DNode \<lparr>si = mkStat ''/var/log/syslog'', isDir = False\<rparr> []],
           DNode \<lparr>si = mkStat ''/var/run'', isDir = False\<rparr> []]"
  by (simp add: ex_defs)

lemma FileStat_preorder_example:
  "FileStat 2 (cfg [''/var''] True) (tgt svc_var) [] =
     Some (Inr [\<lparr>si = mkStat ''/var/log'', isDir = True\<rparr>,
                \<lparr>si = mkStat ''/var/log/syslog'', isDir = False\<rparr>,
                \<lparr>si = mkStat ''/var/run'', isDir = False\<rparr>],
           [StatCall ''/var'', IsDirCall ''/var/log'', StatCall ''/var/log'',
            IsDirCall ''/var/log/syslog'', IsDirCall ''/var/run''])"
  by (simp add: FileStat_def ex_defs)

section \<open>C5: the walk without recursion\<close>

lemma walk_flat:
  "\<not> FileStatRecursive a \<Longrightarrow>
     walk n a t sis = Some (classify (client t) sis, map (IsDirCall \<circ> Path) sis)"
  by (induction sis) (auto simp: classify_def split: sum.splits)

lemma stat_walk_flat:
  "\<not> FileStatRecursive a \<Longrightarrow>
     stat_walk (Suc n) a t p =
       Some (case Stat (client t) p of
               Inl err \<Rightarrow> (Inl (StatFailed (Address t) p err), [StatCall p])
             | Inr stats \<Rightarrow> (Inr (classify (client t) stats),
                               StatCall p # map (IsDirCall \<circ> Path) stats))"
  by (simp add: walk_flat split: sum.splits)

lemma FileStat_loop_flat:
  "\<not> FileStatRecursive a \<Longrightarrow>
     FileStat_loop (Suc n) a t ps rsps tr =
       Some (case top_level t ps of
               (Inl err, d) \<Rightarrow> (Inl err, tr @ d)
             | (Inr r, d) \<Rightarrow> (Inr (rsps @ r), tr @ d))"
proof (induction ps arbitrary: rsps tr)
  case Nil
  show ?case by simp
next
  case (Cons p ps)
  show ?case
  proof (cases "Stat (client t) p")
    case (Inl e)
    then show ?thesis
      using Cons.prems by (simp add: fileStat_stat_walk stat_walk_flat del: stat_walk.simps)
  next
    case (Inr stats)
    then show ?thesis
      using Cons.prems Cons.IH[OF Cons.prems]
      by (cases "top_level t ps")
         (auto simp: fileStat_stat_walk stat_walk_flat simp del: stat_walk.simps split: sum.splits)
  qed
qed

lemma stat_calls_probes [simp]: "stat_calls (map (IsDirCall \<circ> Path) stats @ d) = stat_calls d"
  by (induction stats) auto

lemma top_level_stat_calls:
  "\<exists>k. stat_calls (snd (top_level t ps)) = take k ps"
proof (induction ps)
  case Nil
  show ?case by simp
next
  case (Cons p ps)
  then obtain k where k: "stat_calls (snd (top_level t ps)) = take k ps" by blast
  show ?case
  proof (cases "Stat (client t) p")
    case (Inl e)
    then have "stat_calls (snd (top_level t (p # ps))) = take 1 (p # ps)" by simp
    then show ?thesis by blast
  next
    case (Inr stats)
    with k have "stat_calls (snd (top_level t (p # ps))) = take (Suc k) (p # ps)"
      by (cases "top_level t ps") (auto split: sum.splits)
    then show ?thesis by blast
  qed
qed

lemma top_level_success:
  "fst (top_level t ps) = Inr r \<Longrightarrow>
     r = concat (map (\<lambda>p. case Stat (client t) p of Inl err \<Rightarrow> []
                          | Inr stats \<Rightarrow> classify (client t) stats) ps)
     \<and> stat_calls (snd (top_level t ps)) = ps"
proof (induction ps arbitrary: r)
  case Nil
  then show ?case by simp
next
  case (Cons p ps)
  then show ?case
    by (cases "Stat (client t) p"; cases "top_level t ps") (auto split: sum.splits)
qed

text \<open>
  C5, as the code has it. When the recursive flag is false, a walk always returns (one
  activation of \<open>fileStat\<close> is enough), it issues no stat call but the top-level calls on
  the seed paths, in seed order, up to the first that fails, and no entry's children are
  fetched. When all those calls succeed, the result list consists, in seed order and in
  the order each call returned them, of the entries whose directory probe succeeded;
  an entry whose probe failed is not in the list.
\<close>

theorem no_recursion_top_level_only:
  "\<not> FileStatRecursive a \<longrightarrow>
     FileStat (Suc n) a t tr =
       Some (fst (top_level t (FileStatPath a)), tr @ snd (top_level t (FileStatPath a)))
     \<and> (\<exists>k. stat_calls (snd (top_level t (FileStatPath a))) = take k (FileStatPath a))
     \<and> (fst (top_level t (FileStatPath a)) = Inr r \<longrightarrow>
          r = concat (map (\<lambda>p. case Stat (client t) p of Inl err \<Rightarrow> []
                               | Inr stats \<Rightarrow> classify (client t) stats) (FileStatPath a))
          \<and> stat_calls (snd (top_level t (FileStatPath a))) = FileStatPath a)"
proof (intro impI conjI)
  assume nr: "\<not> FileStatRecursive a"
  show "FileStat (Suc n) a t tr =
       Some (fst (top_level t (FileStatPath a)), tr @ snd (top_level t (FileStatPath a)))"
    unfolding FileStat_def FileStat_loop_flat[OF nr]
    by (cases "top_level t (FileStatPath a)") (auto split: sum.splits)
  show "\<exists>k. stat_calls (snd (top_level t (FileStatPath a))) = take k (FileStatPath a)"
    by (rule top_level_stat_calls)
next
  assume "fst (top_level t (FileStatPath a)) = Inr r"
  from top_level_success[OF this]
  show "r = concat (map (\<lambda>p. case Stat (client t) p of Inl err \<Rightarrow> []
                               | Inr stats \<Rightarrow> classify (client t) stats) (FileStatPath a))"
    and "stat_calls (snd (top_level t (FileStatPath a))) = FileStatPath a"
    by blast+
qed

text \<open>The theorem for the seeds \<open>/var\<close> and \<open>/var/log\<close>, where the probe of \<open>/var/log\<close> fails.\<close>

theorem no_recursion_top_level_only_witness:
  "\<not> FileStatRecursive (cfg [''/var'', ''/var/log''] False)
   \<and> FileStat (Suc 0) (cfg [''/var'', ''/var/log''] False) (tgt svc_probe_down) [] =
       Some (Inr [\<lparr>si = mkStat ''/var/run'', isDir = False\<rparr>,
                  \<lparr>si = mkStat ''/var/log/syslog'', isDir = False\<rparr>],
             [StatCall ''/var'', IsDirCall ''/var/log'', IsDirCall ''/var/run'',
              StatCall ''/var/log'', IsDirCall ''/var/log/syslog''])
   \<and> stat_calls [StatCall ''/var'', IsDirCall ''/var/log'', IsDirCall ''/var/run'',
              StatCall ''/var/log'', IsDirCall ''/var/log/syslog''] = [''/var'', ''/var/log'']
   \<and> [\<lparr>si = mkStat ''/var/run'', isDir = False\<rparr>,
        \<lparr>si = mkStat ''/var/log/syslog'', isDir = False\<rparr>] =
       classify svc_probe_down [mkStat ''/var/log'', mkStat ''/var/run''] @
       classify svc_probe_down [mkStat ''/var/log/syslog'']"
proof -
  let ?a = "cfg [''/var'', ''/var/log''] False"
  let ?t = "tgt svc_probe_down"
  let ?r = "[\<lparr>si = mkStat ''/var/run'', isDir = False\<rparr>,
             \<lparr>si = mkStat ''/var/log/syslog'', isDir = False\<rparr>]"
  have nr: "\<not> FileStatRecursive ?a" by (simp add: cfg_def)
  have tl: "top_level ?t (FileStatPath ?a) =
      (Inr ?r, [StatCall ''/var'', IsDirCall ''/var/log'', IsDirCall ''/var/run'',
              StatCall ''/var/log'', IsDirCall ''/var/log/syslog''])"
    by (simp add: classify_def ex_defs)
  have cl: "?r = classify svc_probe_down [mkStat ''/var/log'', mkStat ''/var/run''] @
       classify svc_probe_down [mkStat ''/var/log/syslog'']"
    by (simp add: classify_def ex_defs)
  note inst = no_recursion_top_level_only [where a = ?a and t = ?t and n = 0 and tr = "[]"
      and r = ?r]
  from inst nr tl cl show ?thesis by simp
qed

text \<open>
  C5 as the specification words it (the result consists exactly of the entries the
  top-level stat calls returned) is false when a probe fails: the stat call on \<open>/var\<close>
  returns two entries and the result has one.
\<close>

theorem no_recursion_all_entries_counterexample:
  "\<not> FileStatRecursive (cfg [''/var''] False)
   \<and> Stat (client (tgt svc_probe_down)) ''/var'' = Inr [mkStat ''/var/log'', mkStat ''/var/run'']
   \<and> FileStat 1 (cfg [''/var''] False) (tgt svc_probe_down) [] =
       Some (Inr [\<lparr>si = mkStat ''/var/run'', isDir = False\<rparr>],
             [StatCall ''/var'', IsDirCall ''/var/log'', IsDirCall ''/var/run''])
   \<and> map si [\<lparr>si = mkStat ''/var/run'', isDir = False\<rparr>] \<noteq>
       [mkStat ''/var/log'', mkStat ''/var/run'']"
  by (simp add: FileStat_def ex_defs)

section \<open>C3: repeated paths\<close>

lemma distinct_of_mset_subset:
  assumes "mset xs \<subseteq># mset ys" and "distinct ys"
  shows "distinct xs"
proof -
  from assms(1) obtain C where "mset ys = mset xs + C"
    by (auto simp: mset_subset_eq_exists_conv)
  moreover obtain zs where "mset zs = C" using ex_mset by blast
  ultimately have "mset ys = mset (xs @ zs)" by simp
  with assms(2) have "distinct (xs @ zs)" by (metis mset_eq_imp_distinct_iff)
  then show ?thesis by simp
qed

lemma listed_append [simp]: "listed c (tr @ tr') = listed c tr @ listed c tr'"
  by (induction c tr rule: listed.induct) auto

lemma paths_append [simp]: "paths (xs @ ys) = paths xs @ paths ys"
  by (induction xs) auto

lemma walk_listed:
  "(\<forall>out d. stat_walk n a t p = Some (Inr out, d) \<longrightarrow>
      mset (paths out) \<subseteq># mset (listed (client t) d))"
  "(\<forall>out d. walk n a t sis = Some (out, d) \<longrightarrow>
      mset (paths out) \<subseteq># mset (map Path sis) + mset (listed (client t) d))"
proof (induction n a t p and n a t sis rule: stat_walk_walk.induct)
  case (1 a t path)
  show ?case by simp
next
  case (2 n a t path)
  show ?case
  proof (cases "Stat (client t) path")
    case (Inl e)
    then show ?thesis by simp
  next
    case (Inr stats)
    with 2[OF Inr] show ?thesis by (cases "walk n a t stats") auto
  qed
next
  case (3 n a t)
  show ?case by simp
next
  case (4 n a t s rest)
  show ?case
  proof (cases "IsDir (client t) (Path s)")
    case (Inl e)
    show ?thesis
    proof (intro allI impI)
      fix out d assume run: "walk n a t (s # rest) = Some (out, d)"
      with Inl obtain d' where r: "walk n a t rest = Some (out, d')" and d: "d = IsDirCall (Path s) # d'"
        by (cases "walk n a t rest") auto
      from 4(1)[OF Inl] r have "mset (paths out) \<subseteq># mset (map Path rest) + mset (listed (client t) d')"
        by blast
      then have "mset (paths out) \<subseteq># add_mset (Path s) (mset (map Path rest) + mset (listed (client t) d'))"
        by (rule subset_mset.order_trans) simp
      with d show "mset (paths out) \<subseteq># mset (map Path (s # rest)) + mset (listed (client t) d)"
        by simp
    qed
  next
    case (Inr b)
    show ?thesis
    proof (cases "b \<and> FileStatRecursive a")
      case False
      show ?thesis
      proof (intro allI impI)
        fix out d assume run: "walk n a t (s # rest) = Some (out, d)"
        with Inr False obtain out' d' where r: "walk n a t rest = Some (out', d')"
          and d: "d = IsDirCall (Path s) # d'" and out: "out = \<lparr>si = s, isDir = b\<rparr> # out'"
          by (cases "walk n a t rest") auto
        from 4(4)[OF Inr False] r
        have "mset (paths out') \<subseteq># mset (map Path rest) + mset (listed (client t) d')"
          by blast
        with d out show "mset (paths out) \<subseteq># mset (map Path (s # rest)) + mset (listed (client t) d)"
          by simp
      qed
    next
      case True
      show ?thesis
      proof (intro allI impI)
        fix out d assume run: "walk n a t (s # rest) = Some (out, d)"
        from run Inr True obtain r d1 out2 d2 where
          nested: "stat_walk n a t (Path s) = Some (r, d1)"
          and rest: "walk n a t rest = Some (out2, d2)"
          and out: "out = \<lparr>si = s, isDir = b\<rparr> # (case r of Inl err \<Rightarrow> [] | Inr fsi \<Rightarrow> fsi) @ out2"
          and d: "d = IsDirCall (Path s) # d1 @ d2"
          by (auto split: option.splits)
        have k: "mset (paths (case r of Inl err \<Rightarrow> [] | Inr fsi \<Rightarrow> fsi)) \<subseteq>#
            mset (listed (client t) d1)"
          using 4(2)[OF Inr True] nested by (cases r) auto
        have o: "mset (paths out2) \<subseteq># mset (map Path rest) + mset (listed (client t) d2)"
          using 4(3)[OF Inr True nested refl] rest by blast
        from subset_mset.add_mono[OF k o] out d
        show "mset (paths out) \<subseteq># mset (map Path (s # rest)) + mset (listed (client t) d)"
          by (simp add: ac_simps)
      qed
    qed
  qed
qed

lemma FileStat_loop_listed:
  "FileStat_loop n a t ps rsps tr = Some (Inr out, tr') \<Longrightarrow>
     mset (paths out) + mset (listed (client t) tr) \<subseteq>#
       mset (paths rsps) + mset (listed (client t) tr')"
proof (induction ps arbitrary: rsps tr)
  case Nil
  then show ?case by simp
next
  case (Cons p ps)
  from Cons.prems obtain fsi d where
    sw: "stat_walk n a t p = Some (Inr fsi, d)"
    and rest: "FileStat_loop n a t ps (rsps @ fsi) (tr @ d) = Some (Inr out, tr')"
    by (auto simp: fileStat_stat_walk split: option.splits sum.splits)
  from walk_listed(1) sw have "mset (paths fsi) \<subseteq># mset (listed (client t) d)"
    by blast
  then have "mset (paths (rsps @ fsi)) + mset (listed (client t) tr') \<subseteq>#
      mset (paths rsps) + mset (listed (client t) d) + mset (listed (client t) tr')"
    by simp
  moreover from Cons.IH[OF rest]
  have "mset (paths out) + mset (listed (client t) (tr @ d)) \<subseteq>#
      mset (paths (rsps @ fsi)) + mset (listed (client t) tr')" .
  ultimately have "mset (paths out) + mset (listed (client t) (tr @ d)) \<subseteq>#
      mset (paths rsps) + mset (listed (client t) d) + mset (listed (client t) tr')"
    using subset_mset.order_trans by blast
  then show ?case
    by (simp add: ac_simps)
qed

lemma listed_ok_append [simp]: "listed_ok c (tr @ tr') = listed_ok c tr @ listed_ok c tr'"
  by (induction c tr rule: listed_ok.induct) auto

lemma classify_Cons:
  "classify c (s # rest) =
     (case IsDir c (Path s) of Inl err \<Rightarrow> [] | Inr b \<Rightarrow> [\<lparr>si = s, isDir = b\<rparr>]) @ classify c rest"
  by (simp add: classify_def)

lemma classify_Nil [simp]: "classify c [] = []"
  by (simp add: classify_def)

lemma walk_listed_ok:
  "(\<forall>out d. stat_walk n a t p = Some (Inr out, d) \<longrightarrow>
      mset (paths out) = mset (listed_ok (client t) d))"
  "(\<forall>out d. walk n a t sis = Some (out, d) \<longrightarrow>
      mset (paths out) = mset (paths (classify (client t) sis)) + mset (listed_ok (client t) d))"
proof (induction n a t p and n a t sis rule: stat_walk_walk.induct)
  case (1 a t path)
  show ?case by simp
next
  case (2 n a t path)
  show ?case
  proof (cases "Stat (client t) path")
    case (Inl e)
    then show ?thesis by simp
  next
    case (Inr stats)
    with 2[OF Inr] show ?thesis by (cases "walk n a t stats") auto
  qed
next
  case (3 n a t)
  show ?case by simp
next
  case (4 n a t s rest)
  show ?case
  proof (cases "IsDir (client t) (Path s)")
    case (Inl e)
    show ?thesis
    proof (intro allI impI)
      fix out d assume run: "walk n a t (s # rest) = Some (out, d)"
      with Inl obtain d' where r: "walk n a t rest = Some (out, d')" and d: "d = IsDirCall (Path s) # d'"
        by (cases "walk n a t rest") auto
      from 4(1)[OF Inl] r
      have "mset (paths out) = mset (paths (classify (client t) rest)) + mset (listed_ok (client t) d')"
        by blast
      with d Inl show "mset (paths out) =
          mset (paths (classify (client t) (s # rest))) + mset (listed_ok (client t) d)"
        by (simp add: classify_Cons)
    qed
  next
    case (Inr b)
    show ?thesis
    proof (cases "b \<and> FileStatRecursive a")
      case False
      show ?thesis
      proof (intro allI impI)
        fix out d assume run: "walk n a t (s # rest) = Some (out, d)"
        with Inr False obtain out' d' where r: "walk n a t rest = Some (out', d')"
          and d: "d = IsDirCall (Path s) # d'" and out: "out = \<lparr>si = s, isDir = b\<rparr> # out'"
          by (cases "walk n a t rest") auto
        from 4(4)[OF Inr False] r
        have "mset (paths out') = mset (paths (classify (client t) rest)) + mset (listed_ok (client t) d')"
          by blast
        with d out Inr show "mset (paths out) =
            mset (paths (classify (client t) (s # rest))) + mset (listed_ok (client t) d)"
          by (simp add: classify_Cons)
      qed
    next
      case True
      show ?thesis
      proof (intro allI impI)
        fix out d assume run: "walk n a t (s # rest) = Some (out, d)"
        from run Inr True obtain r d1 out2 d2 where
          nested: "stat_walk n a t (Path s) = Some (r, d1)"
          and rest: "walk n a t rest = Some (out2, d2)"
          and out: "out = \<lparr>si = s, isDir = b\<rparr> # (case r of Inl err \<Rightarrow> [] | Inr fsi \<Rightarrow> fsi) @ out2"
          and d: "d = IsDirCall (Path s) # d1 @ d2"
          by (auto split: option.splits)
        have k: "mset (paths (case r of Inl err \<Rightarrow> [] | Inr fsi \<Rightarrow> fsi)) =
            mset (listed_ok (client t) d1)"
        proof (cases r)
          case (Inl e)
          with nested obtain m where "Stat (client t) (Path s) = Inl m" "d1 = [StatCall (Path s)]"
            by (cases n; cases "Stat (client t) (Path s)") auto
          with Inl show ?thesis by simp
        next
          case (Inr fsi)
          with 4(2)[OF \<open>IsDir (client t) (Path s) = Inr b\<close> True] nested show ?thesis by auto
        qed
        have o: "mset (paths out2) =
            mset (paths (classify (client t) rest)) + mset (listed_ok (client t) d2)"
          using 4(3)[OF Inr True nested refl] rest by blast
        from k o out d Inr
        show "mset (paths out) =
            mset (paths (classify (client t) (s # rest))) + mset (listed_ok (client t) d)"
          by (simp add: classify_Cons)
      qed
    qed
  qed
qed

lemma FileStat_loop_listed_ok:
  "FileStat_loop n a t ps rsps tr = Some (Inr out, tr') \<Longrightarrow>
     mset (paths out) + mset (listed_ok (client t) tr) =
       mset (paths rsps) + mset (listed_ok (client t) tr')"
proof (induction ps arbitrary: rsps tr)
  case Nil
  then show ?case by simp
next
  case (Cons p ps)
  from Cons.prems obtain fsi d where
    sw: "stat_walk n a t p = Some (Inr fsi, d)"
    and rest: "FileStat_loop n a t ps (rsps @ fsi) (tr @ d) = Some (Inr out, tr')"
    by (auto simp: fileStat_stat_walk split: option.splits sum.splits)
  from walk_listed_ok(1) sw have "mset (paths fsi) = mset (listed_ok (client t) d)"
    by blast
  with Cons.IH[OF rest] show ?case
    by (simp add: ac_simps)
qed

text \<open>
  C3, as the code has it. The walker does no de-duplication: in the result list of a
  target every path occurs exactly as often as the stat calls of the walk listed it with
  a successful directory probe. So the \<open>path\<close> field is unique within the result list
  if and only if no such path was listed twice (neither twice in one answer nor in the
  answers to two calls), and in particular whenever the stat calls listed no path twice
  at all; when seeds or descents overlap, the repeated entries stay in the list.
\<close>

theorem paths_unique_when_listed_once:
  "(FileStat n a t [] = Some (Inr out, tr') \<longrightarrow>
      mset (paths out) = mset (listed_ok (client t) tr') \<and>
      (distinct (paths out) \<longleftrightarrow> distinct (listed_ok (client t) tr')) \<and>
      mset (paths out) \<subseteq># mset (listed (client t) tr')) \<and>
   (FileStat n a t [] = Some (Inr out, tr') \<and> distinct (listed (client t) tr') \<longrightarrow>
      distinct (paths out))"
proof -
  have sub: "mset (paths out) \<subseteq># mset (listed (client t) tr')"
    if "FileStat n a t [] = Some (Inr out, tr')"
    using FileStat_loop_listed[OF that[unfolded FileStat_def]] by simp
  have eq: "mset (paths out) = mset (listed_ok (client t) tr')"
    if "FileStat n a t [] = Some (Inr out, tr')"
    using FileStat_loop_listed_ok[OF that[unfolded FileStat_def]] by simp
  have "distinct (paths out) \<longleftrightarrow> distinct (listed_ok (client t) tr')"
    if "FileStat n a t [] = Some (Inr out, tr')"
    using eq[OF that] by (rule mset_eq_imp_distinct_iff)
  with sub eq show ?thesis
    by (auto intro: distinct_of_mset_subset)
qed

text \<open>The theorem for the single seed \<open>/var\<close>, walked recursively.\<close>

theorem paths_unique_when_listed_once_witness:
  "FileStat 2 (cfg [''/var''] True) (tgt svc_var) [] =
     Some (Inr [\<lparr>si = mkStat ''/var/log'', isDir = True\<rparr>,
                \<lparr>si = mkStat ''/var/log/syslog'', isDir = False\<rparr>,
                \<lparr>si = mkStat ''/var/run'', isDir = False\<rparr>],
           [StatCall ''/var'', IsDirCall ''/var/log'', StatCall ''/var/log'',
            IsDirCall ''/var/log/syslog'', IsDirCall ''/var/run''])
   \<and> distinct (listed (client (tgt svc_var))
         [StatCall ''/var'', IsDirCall ''/var/log'', StatCall ''/var/log'',
          IsDirCall ''/var/log/syslog'', IsDirCall ''/var/run''])
   \<and> mset (paths [\<lparr>si = mkStat ''/var/log'', isDir = True\<rparr>,
                \<lparr>si = mkStat ''/var/log/syslog'', isDir = False\<rparr>,
                \<lparr>si = mkStat ''/var/run'', isDir = False\<rparr>])
       = mset (listed_ok (client (tgt svc_var))
         [StatCall ''/var'', IsDirCall ''/var/log'', StatCall ''/var/log'',
          IsDirCall ''/var/log/syslog'', IsDirCall ''/var/run''])
   \<and> listed_ok (client (tgt svc_var))
         [StatCall ''/var'', IsDirCall ''/var/log'', StatCall ''/var/log'',
          IsDirCall ''/var/log/syslog'', IsDirCall ''/var/run''] =
       [''/var/log'', ''/var/run'', ''/var/log/syslog'']
   \<and> mset (paths [\<lparr>si = mkStat ''/var/log'', isDir = True\<rparr>,
                \<lparr>si = mkStat ''/var/log/syslog'', isDir = False\<rparr>,
                \<lparr>si = mkStat ''/var/run'', isDir = False\<rparr>])
       \<subseteq># mset (listed (client (tgt svc_var))
         [StatCall ''/var'', IsDirCall ''/var/log'', StatCall ''/var/log'',
          IsDirCall ''/var/log/syslog'', IsDirCall ''/var/run''])
   \<and> distinct (paths [\<lparr>si = mkStat ''/var/log'', isDir = True\<rparr>,
                \<lparr>si = mkStat ''/var/log/syslog'', isDir = False\<rparr>,
                \<lparr>si = mkStat ''/var/run'', isDir = False\<rparr>])"
proof -
  let ?out = "[\<lparr>si = mkStat ''/var/log'', isDir = True\<rparr>,
                \<lparr>si = mkStat ''/var/log/syslog'', isDir = False\<rparr>,
                \<lparr>si = mkStat ''/var/run'', isDir = False\<rparr>]"
  let ?tr = "[StatCall ''/var'', IsDirCall ''/var/log'', StatCall ''/var/log'',
            IsDirCall ''/var/log/syslog'', IsDirCall ''/var/run'']"
  have run: "FileStat 2 (cfg [''/var''] True) (tgt svc_var) [] = Some (Inr ?out, ?tr)"
    by (rule FileStat_preorder_example)
  have once: "distinct (listed (client (tgt svc_var)) ?tr)"
    by (simp add: ex_defs)
  have ok: "listed_ok (client (tgt svc_var)) ?tr = [''/var/log'', ''/var/run'', ''/var/log/syslog'']"
    by (simp add: classify_def ex_defs)
  note inst = paths_unique_when_listed_once [where n = 2 and a = "cfg [''/var''] True"
      and t = "tgt svc_var" and out = ?out and tr' = ?tr]
  from inst run once ok show ?thesis by blast
qed

text \<open>
  C3 as the specification words it (the path is unique even when descents or seeds
  overlap) is false: with the seeds \<open>/var\<close> and \<open>/var/log\<close> and recursion enabled,
  \<open>/var/log/syslog\<close> is reached through both seeds and is in the result twice.
\<close>

theorem paths_unique_counterexample:
  "FileStat 2 (cfg [''/var'', ''/var/log''] True) (tgt svc_var) [] =
     Some (Inr [\<lparr>si = mkStat ''/var/log'', isDir = True\<rparr>,
                \<lparr>si = mkStat ''/var/log/syslog'', isDir = False\<rparr>,
                \<lparr>si = mkStat ''/var/run'', isDir = False\<rparr>,
                \<lparr>si = mkStat ''/var/log/syslog'', isDir = False\<rparr>],
           [StatCall ''/var'', IsDirCall ''/var/log'', StatCall ''/var/log'',
            IsDirCall ''/var/log/syslog'', IsDirCall ''/var/run'',
            StatCall ''/var/log'', IsDirCall ''/var/log/syslog''])
   \<and> \<not> distinct (paths [\<lparr>si = mkStat ''/var/log'', isDir = True\<rparr>,
                \<lparr>si = mkStat ''/var/log/syslog'', isDir = False\<rparr>,
                \<lparr>si = mkStat ''/var/run'', isDir = False\<rparr>,
                \<lparr>si = mkStat ''/var/log/syslog'', isDir = False\<rparr>])"
  by (simp add: FileStat_def ex_defs)

section \<open>C4: the aggregation partitions the outcomes\<close>

lemma aggregate_acc:
  "aggregate chan errs result =
     (errs @ fst (aggregate chan [] []), result @ snd (aggregate chan [] []))"
proof (induction chan arbitrary: errs result)
  case Nil
  show ?case by simp
next
  case (Cons r chan)
  show ?case
  proof (cases "Err r")
    case None
    then show ?thesis
      using Cons.IH[of errs "result @ [r]"] Cons.IH[of "[]" "[r]"] by simp
  next
    case (Some e)
    then show ?thesis
      using Cons.IH[of "errs @ [FileStatFailed (TargetName r) e]" result]
        Cons.IH[of "[FileStatFailed (TargetName r) e]" "[]"] by simp
  qed
qed

lemma aggregate_Cons:
  "aggregate (r # chan) [] [] =
     (case Err r of
        Some e \<Rightarrow> (FileStatFailed (TargetName r) e # fst (aggregate chan [] []),
                    snd (aggregate chan [] []))
      | None \<Rightarrow> (fst (aggregate chan [] []), r # snd (aggregate chan [] [])))"
  by (cases "Err r") (simp_all add: aggregate_acc[of chan "[x]" "[]" for x] aggregate_acc[of chan "[]" "[x]" for x])

lemma aggregate_result: "snd (aggregate chan [] []) = filter (\<lambda>r. Err r = None) chan"
  by (induction chan) (auto simp: aggregate_Cons simp del: aggregate.simps(2) split: option.splits)

lemma aggregate_failed:
  "failed_targets (fst (aggregate chan [] [])) = map TargetName (filter (\<lambda>r. Err r \<noteq> None) chan)"
  by (induction chan) (auto simp: aggregate_Cons simp del: aggregate.simps(2) split: option.splits)

lemma aggregate_errs:
  "fst (aggregate chan [] []) =
     map (\<lambda>r. FileStatFailed (TargetName r) (the (Err r))) (filter (\<lambda>r. Err r \<noteq> None) chan)"
  by (induction chan) (auto simp: aggregate_Cons simp del: aggregate.simps(2) split: option.splits)

lemma aggregate_lengths:
  "length (fst (aggregate chan [] [])) + length (snd (aggregate chan [] [])) = length chan"
  by (induction chan) (auto simp: aggregate_Cons simp del: aggregate.simps(2) split: option.splits)

lemma distinct_names_partition:
  assumes "distinct (map TargetName chan)"
  shows "set (map TargetName (filter (\<lambda>r. Err r \<noteq> None) chan)) \<inter>
         set (map TargetName (filter (\<lambda>r. Err r = None) chan)) = {}"
proof -
  have inj: "inj_on TargetName (set chan)" using assms by (simp add: distinct_map)
  show ?thesis
  proof (rule ccontr)
    assume "\<not> ?thesis"
    then obtain x y where "x \<in> set chan" "y \<in> set chan" "Err x \<noteq> None" "Err y = None"
      "TargetName x = TargetName y" by auto
    with inj have "x = y" by (auto dest: inj_onD)
    with \<open>Err x \<noteq> None\<close> \<open>Err y = None\<close> show False by simp
  qed
qed

text \<open>
  C4. For any number of outcomes drained from the channel, the aggregation puts every
  outcome in exactly one place: the outcomes without an error make up \<open>result\<close>, in
  arrival order, the others each give one wrapped error in \<open>errs\<close>, and none is dropped.
  When the outcomes carry pairwise different target identities (one outcome per target),
  no identity is on both sides and each occurs once. All outcomes failing gives an empty
  \<open>result\<close>, all succeeding gives no errors, and no outcomes at all gives both empty.
\<close>

theorem aggregate_partitions_targets:
  "(aggregate chan [] [] = (errs, result) \<longrightarrow>
      result = filter (\<lambda>r. Err r = None) chan \<and>
      failed_targets errs = map TargetName (filter (\<lambda>r. Err r \<noteq> None) chan) \<and>
      length errs + length result = length chan \<and>
      set (failed_targets errs) \<union> set (map TargetName result) = set (map TargetName chan)) \<and>
   (aggregate chan [] [] = (errs, result) \<and> distinct (map TargetName chan) \<longrightarrow>
      set (failed_targets errs) \<inter> set (map TargetName result) = {} \<and>
      distinct (failed_targets errs) \<and> distinct (map TargetName result) \<and>
      length (failed_targets errs) = length errs) \<and>
   (aggregate chanF [] [] = (errsF, resultF) \<and> (\<forall>r\<in>set chanF. Err r \<noteq> None) \<longrightarrow>
      resultF = [] \<and> length errsF = length chanF) \<and>
   (aggregate chanS [] [] = (errsS, resultS) \<and> (\<forall>r\<in>set chanS. Err r = None) \<longrightarrow>
      errsS = [] \<and> resultS = chanS) \<and>
   aggregate [] [] [] = ([], [])"
proof (intro conjI impI)
  assume ag: "aggregate chan [] [] = (errs, result)"
  then have e: "errs = fst (aggregate chan [] [])" and r: "result = snd (aggregate chan [] [])"
    by simp_all
  show "result = filter (\<lambda>r. Err r = None) chan" by (simp add: r aggregate_result)
  show "failed_targets errs = map TargetName (filter (\<lambda>r. Err r \<noteq> None) chan)"
    by (simp add: e aggregate_failed)
  show "length errs + length result = length chan"
    unfolding e r by (rule aggregate_lengths)
  show "set (failed_targets errs) \<union> set (map TargetName result) = set (map TargetName chan)"
  proof -
    have "set chan = {x \<in> set chan. Err x \<noteq> None} \<union> {x \<in> set chan. Err x = None}"
      by auto
    then have "TargetName ` set chan =
        TargetName ` {x \<in> set chan. Err x \<noteq> None} \<union> TargetName ` {x \<in> set chan. Err x = None}"
      by (metis image_Un)
    then show ?thesis
      unfolding e r aggregate_failed aggregate_result by simp
  qed
next
  assume "aggregate chan [] [] = (errs, result) \<and> distinct (map TargetName chan)"
  then have e: "errs = fst (aggregate chan [] [])" and r: "result = snd (aggregate chan [] [])"
    and d: "distinct (map TargetName chan)"
    by simp_all
  show "set (failed_targets errs) \<inter> set (map TargetName result) = {}"
    unfolding e r aggregate_failed aggregate_result by (rule distinct_names_partition[OF d])
  show "distinct (failed_targets errs)"
    unfolding e aggregate_failed using d by (simp add: distinct_map_filter)
  show "distinct (map TargetName result)"
    unfolding r aggregate_result using d by (simp add: distinct_map_filter)
  show "length (failed_targets errs) = length errs"
    unfolding e aggregate_failed by (simp add: aggregate_errs)
next
  assume "aggregate chanF [] [] = (errsF, resultF) \<and> (\<forall>r\<in>set chanF. Err r \<noteq> None)"
  then have e: "errsF = fst (aggregate chanF [] [])" and r: "resultF = snd (aggregate chanF [] [])"
    and d: "\<forall>r\<in>set chanF. Err r \<noteq> None"
    by simp_all
  from d show "resultF = []" unfolding r aggregate_result by (simp add: filter_empty_conv)
  from d have "filter (\<lambda>r. Err r \<noteq> None) chanF = chanF" by (simp add: filter_id_conv)
  then show "length errsF = length chanF" unfolding e aggregate_errs by simp
next
  assume "aggregate chanS [] [] = (errsS, resultS) \<and> (\<forall>r\<in>set chanS. Err r = None)"
  then have e: "errsS = fst (aggregate chanS [] [])" and r: "resultS = snd (aggregate chanS [] [])"
    and d: "\<forall>r\<in>set chanS. Err r = None"
    by simp_all
  from d show "errsS = []" unfolding e aggregate_errs by (simp add: filter_empty_conv)
  from d show "resultS = chanS" unfolding r aggregate_result by (simp add: filter_id_conv)
next
  show "aggregate [] [] [] = ([], [])" by simp
qed

lemmas rsp_defs = rsp_A_def rsp_B_def rsp_C_def rsp_D_def

text \<open>The theorem for the outcomes of the targets \<open>A\<close>, \<open>B\<close>, \<open>C\<close> and \<open>D\<close>.\<close>

theorem aggregate_partitions_targets_witness:
  "aggregate [rsp_B, rsp_A, rsp_C] [] [] =
     ([FileStatFailed ''B'' (ConnectFailed ''connection refused''),
       FileStatFailed ''C'' (StatFailed ''C'' ''/etc'' ''no such file'')], [rsp_A])
   \<and> distinct (map TargetName [rsp_B, rsp_A, rsp_C])
   \<and> failed_targets [FileStatFailed ''B'' (ConnectFailed ''connection refused''),
       FileStatFailed ''C'' (StatFailed ''C'' ''/etc'' ''no such file'')] = [''B'', ''C'']
   \<and> map TargetName [rsp_A] = [''A'']
   \<and> set [''B'', ''C''] \<inter> set [''A''] = {}
   \<and> set [''B'', ''C''] \<union> set [''A''] = set (map TargetName [rsp_B, rsp_A, rsp_C])
   \<and> aggregate [rsp_B, rsp_C] [] [] =
     ([FileStatFailed ''B'' (ConnectFailed ''connection refused''),
       FileStatFailed ''C'' (StatFailed ''C'' ''/etc'' ''no such file'')], [])
   \<and> list_all (\<lambda>r. Err r \<noteq> None) [rsp_B, rsp_C]
   \<and> aggregate [rsp_D, rsp_A] [] [] = ([], [rsp_D, rsp_A])
   \<and> list_all (\<lambda>r. Err r = None) [rsp_D, rsp_A]"
proof -
  let ?eB = "FileStatFailed ''B'' (ConnectFailed ''connection refused'')"
  let ?eC = "FileStatFailed ''C'' (StatFailed ''C'' ''/etc'' ''no such file'')"
  have a1: "aggregate [rsp_B, rsp_A, rsp_C] [] [] = ([?eB, ?eC], [rsp_A])"
    by (simp add: rsp_defs)
  have d1: "distinct (map TargetName [rsp_B, rsp_A, rsp_C])"
    by (simp add: rsp_defs)
  have a2: "aggregate [rsp_B, rsp_C] [] [] = ([?eB, ?eC], [])"
    by (simp add: rsp_defs)
  have f2: "\<forall>r\<in>set [rsp_B, rsp_C]. Err r \<noteq> None"
    by (simp add: rsp_defs)
  have a3: "aggregate [rsp_D, rsp_A] [] [] = ([], [rsp_D, rsp_A])"
    by (simp add: rsp_defs)
  have s3: "\<forall>r\<in>set [rsp_D, rsp_A]. Err r = None"
    by (simp add: rsp_defs)
  note inst = aggregate_partitions_targets [where chan = "[rsp_B, rsp_A, rsp_C]"
      and errs = "[?eB, ?eC]" and result = "[rsp_A]"
      and chanF = "[rsp_B, rsp_C]" and errsF = "[?eB, ?eC]" and resultF = "[]"
      and chanS = "[rsp_D, rsp_A]" and errsS = "[]" and resultS = "[rsp_D, rsp_A]"]
  from inst a1 d1 have
    "set (failed_targets [?eB, ?eC]) \<inter> set (map TargetName [rsp_A]) = {}"
    "set (failed_targets [?eB, ?eC]) \<union> set (map TargetName [rsp_A]) =
       set (map TargetName [rsp_B, rsp_A, rsp_C])"
    by blast+
  moreover have "failed_targets [?eB, ?eC] = [''B'', ''C'']" "map TargetName [rsp_A] = [''A'']"
    by (simp_all add: rsp_defs)
  ultimately show ?thesis
    using a1 d1 a2 f2 a3 s3 by (simp del: aggregate.simps)
qed

section \<open>C7: the permission column\<close>

lemma length_FileMode_rwx: "length (FileMode_rwx m i rwx) = length rwx"
  by (induction m i rwx rule: FileMode_rwx.induct) auto

lemma length_FileMode_String: "10 \<le> length (FileMode_String m)"
proof -
  have "1 \<le> length (if FileMode_flags m 0 ''dalTLDpSugct?'' = [] then ''-''
                     else FileMode_flags m 0 ''dalTLDpSugct?'')"
    by (cases "FileMode_flags m 0 ''dalTLDpSugct?''") auto
  then show ?thesis
    unfolding FileMode_String_def Let_def by (simp add: length_FileMode_rwx)
qed

lemma permString_total:
  "permString fsi =
     Inr (if isDir fsi
          then CHR ''d'' # tl (FileMode_String (Permissions (si fsi) AND Umask (si fsi)))
          else FileMode_String (Permissions (si fsi) AND Umask (si fsi)))"
  using length_FileMode_String[of "Permissions (si fsi) AND Umask (si fsi)"]
  by (simp add: permString_def Let_def drop_Suc)

text \<open>
  C7. The permission string of an entry is rendered from the permission bits masked
  (bitwise and) by the umask bits, and rendering never panics. For an entry classified
  as a directory the first character is \<open>d\<close>, whatever the masked bits are, and the rest
  is the rendering of the masked bits from its second character on; for any other entry
  the string is the rendering of the masked bits, first character included. This string
  is the fourth column of the entry's row.
\<close>

theorem perm_string_directory_marker:
  "permString fsi =
     Inr (if isDir fsi
          then CHR ''d'' # tl (FileMode_String (Permissions (si fsi) AND Umask (si fsi)))
          else FileMode_String (Permissions (si fsi) AND Umask (si fsi)))
   \<and> (isDir fsi \<longrightarrow> (\<exists>s. permString fsi = Inr s \<and> hd s = CHR ''d'' \<and> length s \<ge> 10))
   \<and> (\<not> isDir fsi \<longrightarrow> (\<exists>s. permString fsi = Inr s \<and> s \<noteq> [] \<and>
         hd s = hd (FileMode_String (Permissions (si fsi) AND Umask (si fsi)))))
   \<and> (permString fsi = Inr perms \<longrightarrow> mkRow L a name fsi perms ! 3 = perms)"
proof (intro conjI impI)
  show "permString fsi =
     Inr (if isDir fsi
          then CHR ''d'' # tl (FileMode_String (Permissions (si fsi) AND Umask (si fsi)))
          else FileMode_String (Permissions (si fsi) AND Umask (si fsi)))"
    by (rule permString_total)
next
  assume "isDir fsi"
  then show "\<exists>s. permString fsi = Inr s \<and> hd s = CHR ''d'' \<and> length s \<ge> 10"
    using length_FileMode_String[of "Permissions (si fsi) AND Umask (si fsi)"]
    by (simp add: permString_total)
next
  assume "\<not> isDir fsi"
  then show "\<exists>s. permString fsi = Inr s \<and> s \<noteq> [] \<and>
         hd s = hd (FileMode_String (Permissions (si fsi) AND Umask (si fsi)))"
    using length_FileMode_String[of "Permissions (si fsi) AND Umask (si fsi)"]
    by (auto simp: permString_total)
next
  show "mkRow L a name fsi perms ! 3 = perms"
    by (simp add: mkRow_def Let_def eval_nat_numeral)
qed

text \<open>Renderings of some mode words, and the theorem at two entries.\<close>

lemma FileMode_examples:
  "FileMode_String 0x1ED = ''-rwxr-xr-x''"
  "FileMode_String 0x800001ED = ''drwxr-xr-x''"
  "FileMode_String 0x080001A4 = ''Lrw-r--r--''"
  "FileMode_String 0x1FF = ''-rwxrwxrwx''"
  by (simp_all add: FileMode_String_def)

theorem perm_string_directory_marker_witness:
  "isDir link_dir
   \<and> FileMode_String (Permissions (si link_dir) AND Umask (si link_dir)) = ''Lrw-r--r--''
   \<and> permString link_dir = Inr ''drw-r--r--''
   \<and> \<not> isDir (etc_entry ''/etc/a'' 10 False)
   \<and> permString (etc_entry ''/etc/a'' 10 False) = Inr ''-rwxr-xr-x''
   \<and> hd ''-rwxr-xr-x'' = hd (FileMode_String (Permissions (si (etc_entry ''/etc/a'' 10 False))
          AND Umask (si (etc_entry ''/etc/a'' 10 False))))"
proof -
  have m1: "Permissions (si link_dir) AND Umask (si link_dir) = 0x080001A4"
    by (simp add: link_dir_def)
  have m2: "Permissions (si (etc_entry ''/etc/a'' 10 False))
          AND Umask (si (etc_entry ''/etc/a'' 10 False)) = 0x1ED"
    by (simp add: etc_entry_def)
  have d1: "isDir link_dir" by (simp add: link_dir_def)
  have d2: "\<not> isDir (etc_entry ''/etc/a'' 10 False)" by (simp add: etc_entry_def)
  note i1 = perm_string_directory_marker [where fsi = link_dir]
  note i2 = perm_string_directory_marker [where fsi = "etc_entry ''/etc/a'' 10 False"]
  from i1 d1 have "permString link_dir = Inr ''drw-r--r--''"
    by (simp add: m1 FileMode_examples)
  moreover from i2 d2 have "permString (etc_entry ''/etc/a'' 10 False) = Inr ''-rwxr-xr-x''"
    by (simp add: m2 FileMode_examples)
  ultimately show ?thesis
    using d1 d2 by (simp add: m1 m2 FileMode_examples)
qed

section \<open>The table in closed form\<close>

lemma permString_Inr:
  "\<exists>perms. permString fsi = Inr perms"
  by (simp add: permString_total)

lemma statTable_entries_closed:
  "statTable_entries L a name fsis (targets, tab) =
     Inr (if fsis = [] then (targets, tab)
          else ((if tab name = None then targets @ [name] else targets),
                tab(name \<mapsto> (case tab name of None \<Rightarrow> [] | Some d \<Rightarrow> d) @
                  map (\<lambda>fsi. mkRow L a name fsi
                         (case permString fsi of Inl p \<Rightarrow> [] | Inr perms \<Rightarrow> perms)) fsis)))"
proof (induction fsis arbitrary: targets tab)
  case Nil
  show ?case by simp
next
  case (Cons fsi rest)
  obtain perms where p: "permString fsi = Inr perms" using permString_Inr by blast
  show ?case
  proof (cases "tab name")
    case None
    then show ?thesis
      using p by (simp add: Cons.IH)
  next
    case (Some d)
    then show ?thesis
      using p by (simp add: Cons.IH)
  qed
qed

lemma statTable_responses_foldl:
  "statTable_responses L a rs st = Inr (foldl (tab_step L a) st rs)"
proof (induction rs arbitrary: st)
  case Nil
  show ?case by simp
next
  case (Cons r rs)
  obtain targets tab where st: "st = (targets, tab)" by (cases st)
  show ?case
    unfolding st
    by (simp add: statTable_entries_closed Cons.IH tab_step_def rows_of_def)
qed

lemma rows_of_empty [simp]: "rows_of L a r = [] \<longleftrightarrow> rsp r = []"
  by (simp add: rows_of_def)

lemma tab_of_Nil [simp]: "tab_of L a [] name = []"
  by (simp add: tab_of_def)

lemma tab_of_Cons:
  "tab_of L a (r # rs) name =
     (if TargetName r = name then rows_of L a r @ tab_of L a rs name else tab_of L a rs name)"
  by (simp add: tab_of_def)

lemma foldl_tab_step:
  assumes "distinct (fst st)" and "set (fst st) = dom (snd st)"
  shows "distinct (fst (foldl (tab_step L a) st rs))
    \<and> set (fst (foldl (tab_step L a) st rs)) = dom (snd (foldl (tab_step L a) st rs))
    \<and> (\<forall>name. snd (foldl (tab_step L a) st rs) name =
          (if tab_of L a rs name = [] then snd st name
           else Some ((case snd st name of None \<Rightarrow> [] | Some d \<Rightarrow> d) @ tab_of L a rs name)))"
  using assms
proof (induction rs arbitrary: st)
  case Nil
  then show ?case by simp
next
  case (Cons r rs)
  let ?st = "tab_step L a st r"
  have d: "distinct (fst ?st)" and s: "set (fst ?st) = dom (snd ?st)"
    using Cons.prems by (auto simp: tab_step_def dom_def)
  from Cons.IH[OF d s] have
    ih1: "distinct (fst (foldl (tab_step L a) ?st rs))"
    and ih2: "set (fst (foldl (tab_step L a) ?st rs)) = dom (snd (foldl (tab_step L a) ?st rs))"
    and ih3: "\<And>name. snd (foldl (tab_step L a) ?st rs) name =
          (if tab_of L a rs name = [] then snd ?st name
           else Some ((case snd ?st name of None \<Rightarrow> [] | Some d \<Rightarrow> d) @ tab_of L a rs name))"
    by blast+
  have key: "snd (foldl (tab_step L a) ?st rs) name =
          (if tab_of L a (r # rs) name = [] then snd st name
           else Some ((case snd st name of None \<Rightarrow> [] | Some d \<Rightarrow> d) @ tab_of L a (r # rs) name))"
    for name
    unfolding ih3 by (auto simp: tab_of_Cons tab_step_def split: option.splits)
  show ?case
    unfolding foldl_Cons using ih1 ih2 key by blast
qed

lemma tab_of_nonempty: "tab_of L a rs name \<noteq> [] \<longleftrightarrow> name \<in> set (names_of rs)"
  by (induction rs) (auto simp: tab_of_Cons names_of_def)

lemma sort_distinct_set:
  assumes "distinct xs" and "set xs = set ys"
  shows "sort xs = sort (remdups (ys :: string list))"
proof -
  have "sort xs = sort (remdups xs)" using assms(1) by (simp add: distinct_remdups_id)
  also have "\<dots> = sorted_list_of_set (set xs)" by (simp add: sorted_list_of_set_sort_remdups)
  also have "\<dots> = sorted_list_of_set (set ys)" using assms(2) by simp
  also have "\<dots> = sort (remdups ys)" by (simp add: sorted_list_of_set_sort_remdups)
  finally show ?thesis .
qed

lemma tableRows_closed:
  "tableRows L a rs =
     Inr (concat (map (\<lambda>n. sort_Slice L (tab_of L a rs n)) (sort (remdups (names_of rs)))))"
proof -
  obtain targets tab where st: "foldl (tab_step L a) ([], Map.empty) rs = (targets, tab)"
    by (cases "foldl (tab_step L a) ([], Map.empty) rs")
  from foldl_tab_step[of "([], Map.empty)" L a rs] st
  have d: "distinct targets" and s: "set targets = dom tab"
    and t: "\<And>name. tab name = (if tab_of L a rs name = [] then None else Some (tab_of L a rs name))"
    by simp_all
  have "dom tab = set (names_of rs)"
    using t tab_of_nonempty[of L a rs] by (auto simp: dom_def)
  with s have s': "set targets = set (names_of rs)" by simp
  have srt: "sort targets = sort (remdups (names_of rs))"
    by (rule sort_distinct_set[OF d s'])
  have "map (\<lambda>tName. case map_option (sort_Slice L) (tab tName) of None \<Rightarrow> [] | Some data \<Rightarrow> data)
          (sort (remdups (names_of rs))) =
        map (\<lambda>n. sort_Slice L (tab_of L a rs n)) (sort (remdups (names_of rs)))"
    by (rule map_cong) (use tab_of_nonempty[of L a rs] in \<open>auto simp: t\<close>)
  then show ?thesis
    unfolding tableRows_def statTable_responses_foldl st
    by (simp only: sum.case prod.case Let_def srt)
qed

lemma mset_names_of: "mset rs = mset rs' \<Longrightarrow> set (names_of rs) = set (names_of rs')"
proof -
  assume "mset rs = mset rs'"
  then have "set rs = set rs'" by (rule mset_eq_setD)
  then show ?thesis by (auto simp: names_of_def)
qed

lemma short_list_mset_eq:
  assumes "mset xs = mset ys" and "length xs \<le> 1"
  shows "xs = ys"
proof -
  from assms(1) have l: "length ys = length xs" by (metis size_mset)
  show ?thesis
  proof (cases xs)
    case Nil
    with l show ?thesis by simp
  next
    case (Cons x xs')
    with assms(2) have xs: "xs = [x]" by simp
    with l obtain y where ys: "ys = [y]" by (cases ys) auto
    from assms(1) xs ys show ?thesis by simp
  qed
qed

lemma filter_name_short:
  assumes "distinct (map TargetName rs)"
  shows "length (filter (\<lambda>r. TargetName r = name) rs) \<le> 1"
  using assms
proof (induction rs)
  case Nil
  show ?case by simp
next
  case (Cons r rs)
  then have ih: "length (filter (\<lambda>r. TargetName r = name) rs) \<le> 1" by simp
  show ?case
  proof (cases "TargetName r = name")
    case False
    with ih show ?thesis by simp
  next
    case True
    with Cons.prems have "name \<notin> TargetName ` set rs" by auto
    then have "filter (\<lambda>r. TargetName r = name) rs = []"
      by (auto simp: filter_empty_conv)
    with True show ?thesis by simp
  qed
qed

lemma tab_of_permutation:
  assumes "mset rs = mset rs'" and "distinct (map TargetName rs)"
  shows "tab_of L a rs name = tab_of L a rs' name"
proof -
  have "mset (filter (\<lambda>r. TargetName r = name) rs) = mset (filter (\<lambda>r. TargetName r = name) rs')"
    using assms(1) by simp
  from short_list_mset_eq[OF this filter_name_short[OF assms(2)]]
  show ?thesis by (simp add: tab_of_def)
qed

lemma tab_of_column0: "row \<in> set (tab_of L a rs name) \<Longrightarrow> row ! 0 = name"
  by (auto simp: tab_of_def rows_of_def mkRow_def Let_def)

lemma sum_tab_of_Cons:
  assumes "distinct ns"
  shows "sum_list (map (\<lambda>n. mset (tab_of L a (r # rs) n)) ns) =
         (if TargetName r \<in> set ns then mset (rows_of L a r) else {#}) +
         sum_list (map (\<lambda>n. mset (tab_of L a rs n)) ns)"
  using assms by (induction ns) (auto simp: tab_of_Cons)

lemma sum_tab_of:
  assumes "distinct ns" and "set (names_of rs) \<subseteq> set ns"
  shows "sum_list (map (\<lambda>n. mset (tab_of L a rs n)) ns) = mset (concat (map (rows_of L a) rs))"
  using assms(2)
proof (induction rs)
  case Nil
  show ?case by (induction ns) auto
next
  case (Cons r rs)
  from Cons.prems have sub: "set (names_of rs) \<subseteq> set ns" by (auto simp: names_of_def)
  have "TargetName r \<notin> set ns \<Longrightarrow> rows_of L a r = []"
    using Cons.prems by (auto simp: names_of_def split: if_splits)
  then show ?case
    by (simp add: sum_tab_of_Cons[OF assms(1)] Cons.IH[OF sub])
qed

lemma mset_table:
  assumes "sort_Slice_ok L" and "distinct ns" and "set (names_of rs) \<subseteq> set ns"
  shows "mset (concat (map (\<lambda>n. sort_Slice L (tab_of L a rs n)) ns)) =
         mset (concat (map (rows_of L a) rs))"
proof -
  have "mset (concat (map (\<lambda>n. sort_Slice L (tab_of L a rs n)) ns)) =
        sum_list (map (\<lambda>n. mset (sort_Slice L (tab_of L a rs n))) ns)"
    by (simp add: mset_concat comp_def)
  also have "\<dots> = sum_list (map (\<lambda>n. mset (tab_of L a rs n)) ns)"
    using assms(1) by (simp add: sort_Slice_ok_def)
  also have "\<dots> = mset (concat (map (rows_of L a) rs))"
    by (rule sum_tab_of[OF assms(2,3)])
  finally show ?thesis .
qed

lemma sorted_block:
  assumes "sort_Slice_ok L"
  shows "by_target_then_path (sort_Slice L (tab_of L a rs n))"
proof -
  from assms have m: "mset (sort_Slice L (tab_of L a rs n)) = mset (tab_of L a rs n)"
    and s: "sorted_wrt (\<lambda>x y. \<not> (y ! 1 < x ! 1)) (sort_Slice L (tab_of L a rs n))"
    by (simp_all add: sort_Slice_ok_def)
  from m have "set (sort_Slice L (tab_of L a rs n)) = set (tab_of L a rs n)"
    by (rule mset_eq_setD)
  then have c: "\<And>row. row \<in> set (sort_Slice L (tab_of L a rs n)) \<Longrightarrow> row ! 0 = n"
    using tab_of_column0 by blast
  show ?thesis
    unfolding by_target_then_path_def
    by (rule sorted_wrt_mono_rel[OF _ s]) (simp add: c)
qed

lemma sorted_table:
  assumes "sort_Slice_ok L" and "sorted_wrt (<) ns"
  shows "by_target_then_path (concat (map (\<lambda>n. sort_Slice L (tab_of L a rs n)) ns))"
  using assms(2)
proof (induction ns)
  case Nil
  show ?case by (simp add: by_target_then_path_def)
next
  case (Cons n ns)
  then have ih: "by_target_then_path (concat (map (\<lambda>n. sort_Slice L (tab_of L a rs n)) ns))"
    and lt: "\<forall>m\<in>set ns. n < m"
    by simp_all
  have col: "row ! 0 = k" if "row \<in> set (sort_Slice L (tab_of L a rs k))" for row k
  proof -
    from assms(1) have "mset (sort_Slice L (tab_of L a rs k)) = mset (tab_of L a rs k)"
      by (simp add: sort_Slice_ok_def)
    then have "set (sort_Slice L (tab_of L a rs k)) = set (tab_of L a rs k)"
      by (rule mset_eq_setD)
    with that show ?thesis using tab_of_column0 by blast
  qed
  have cross: "x ! 0 < y ! 0"
    if "x \<in> set (sort_Slice L (tab_of L a rs n))"
      and "y \<in> set (concat (map (\<lambda>n. sort_Slice L (tab_of L a rs n)) ns))" for x y
  proof -
    from that(2) obtain m where "m \<in> set ns" "y \<in> set (sort_Slice L (tab_of L a rs m))" by auto
    with that(1) lt col show ?thesis by metis
  qed
  show ?case
    using sorted_block[OF assms(1), of a rs n] ih cross
    by (simp add: by_target_then_path_def sorted_wrt_append)
qed

lemma sort_Slice_ok_plain: "sort_Slice_ok plain_Library"
proof -
  have "sorted_wrt (\<lambda>x y. \<not> (y ! 1 < x ! 1)) (sort_key (\<lambda>row. row ! 1) data)"
    for data :: "string list list"
    using sorted_sort_key[of "\<lambda>row. row ! 1" data]
    by (simp add: sorted_wrt_map not_less)
  then show ?thesis
    by (simp add: sort_Slice_ok_def plain_Library_def)
qed

section \<open>C8: the table does not depend on the arrival order\<close>

text \<open>
  C8. For two arrival orders of the same successful outcomes (one outcome per target
  identity), \<open>statTable\<close> produces the same text. The reason is the order of the rows:
  whatever order the outcomes and their entries come in, the table holds exactly the rows
  of all entries, ascending by target identity and, within a target, ascending by path
  (first and second column of a row), for every \<open>sort.Slice\<close> that sorts. The humanized
  columns are taken at one reading of the clock.
\<close>

theorem statTable_deterministic:
  "(mset rs = mset rs' \<and> distinct (map TargetName rs) \<longrightarrow> statTable L a rs = statTable L a rs')
   \<and> (sort_Slice_ok L \<longrightarrow>
        (\<exists>rows. statTable L a rs = Inr (table_Render L tableHeader rows) \<and>
                by_target_then_path rows \<and>
                mset rows = mset (concat (map (rows_of L a) rs))))
   \<and> mkRow L a name fsi perms ! 0 = name \<and> mkRow L a name fsi perms ! 1 = Path (si fsi)"
proof (intro conjI impI)
  assume h: "mset rs = mset rs' \<and> distinct (map TargetName rs)"
  then have "set (names_of rs) = set (names_of rs')" by (intro mset_names_of) simp
  then have "sort (remdups (names_of rs)) = sort (remdups (names_of rs'))"
    using sorted_list_of_set_sort_remdups[of "names_of rs"]
      sorted_list_of_set_sort_remdups[of "names_of rs'"] by metis
  moreover have "tab_of L a rs n = tab_of L a rs' n" for n
    using h by (intro tab_of_permutation) simp_all
  ultimately have "tableRows L a rs = tableRows L a rs'"
    unfolding tableRows_closed by simp
  then show "statTable L a rs = statTable L a rs'"
    by (simp add: statTable_def)
next
  assume ok: "sort_Slice_ok L"
  let ?ns = "sort (remdups (names_of rs))"
  let ?rows = "concat (map (\<lambda>n. sort_Slice L (tab_of L a rs n)) ?ns)"
  have "sorted_wrt (<) ?ns" by (simp add: strict_sorted_iff)
  then have "by_target_then_path ?rows" by (rule sorted_table[OF ok])
  moreover have "mset ?rows = mset (concat (map (rows_of L a) rs))"
    by (rule mset_table[OF ok]) simp_all
  moreover have "statTable L a rs = Inr (table_Render L tableHeader ?rows)"
    by (simp add: statTable_def tableRows_closed)
  ultimately show "\<exists>rows. statTable L a rs = Inr (table_Render L tableHeader rows) \<and>
                by_target_then_path rows \<and>
                mset rows = mset (concat (map (rows_of L a) rs))"
    by blast
next
  show "mkRow L a name fsi perms ! 0 = name" "mkRow L a name fsi perms ! 1 = Path (si fsi)"
    by (simp_all add: mkRow_def Let_def)
qed


text \<open>The table for the outcomes of \<open>E\<close>, \<open>A\<close> and \<open>D\<close>, and the theorem at these outcomes.\<close>

lemma table_example:
  "tableRows plain_Library (cfg [] False) [rsp_E, rsp_A, rsp_D] =
     Inr [[''A'', ''/etc/a'', ''1970-01-01T00:00:00Z'', ''-rwxr-xr-x'', ''-rwxrwxrwx'', ''10''],
          [''A'', ''/etc/b'', ''1970-01-01T00:00:00Z'', ''-rwxr-xr-x'', ''-rwxrwxrwx'', ''20''],
          [''A'', ''/etc/ssl'', ''1970-01-01T00:00:00Z'', ''drwxr-xr-x'', ''-rwxrwxrwx'', ''0''],
          [''E'', ''/etc/hosts'', ''1970-01-01T00:00:00Z'', ''-rwxr-xr-x'', ''-rwxrwxrwx'', ''7'']]"
  by code_simp

theorem statTable_deterministic_witness:
  "mset [rsp_E, rsp_A, rsp_D] = mset [rsp_D, rsp_A, rsp_E]
   \<and> distinct (map TargetName [rsp_E, rsp_A, rsp_D])
   \<and> statTable plain_Library (cfg [] False) [rsp_E, rsp_A, rsp_D] =
       statTable plain_Library (cfg [] False) [rsp_D, rsp_A, rsp_E]
   \<and> sort_Slice_ok plain_Library
   \<and> (\<exists>rows. statTable plain_Library (cfg [] False) [rsp_E, rsp_A, rsp_D] =
                Inr (table_Render plain_Library tableHeader rows) \<and>
              by_target_then_path rows \<and>
              mset rows = mset (concat (map (rows_of plain_Library (cfg [] False))
                                          [rsp_E, rsp_A, rsp_D])))
   \<and> tableRows plain_Library (cfg [] False) [rsp_E, rsp_A, rsp_D] =
     Inr [[''A'', ''/etc/a'', ''1970-01-01T00:00:00Z'', ''-rwxr-xr-x'', ''-rwxrwxrwx'', ''10''],
          [''A'', ''/etc/b'', ''1970-01-01T00:00:00Z'', ''-rwxr-xr-x'', ''-rwxrwxrwx'', ''20''],
          [''A'', ''/etc/ssl'', ''1970-01-01T00:00:00Z'', ''drwxr-xr-x'', ''-rwxrwxrwx'', ''0''],
          [''E'', ''/etc/hosts'', ''1970-01-01T00:00:00Z'', ''-rwxr-xr-x'', ''-rwxrwxrwx'', ''7'']]"
proof -
  have m: "mset [rsp_E, rsp_A, rsp_D] = mset [rsp_D, rsp_A, rsp_E]"
    by (simp add: ac_simps)
  have d: "distinct (map TargetName [rsp_E, rsp_A, rsp_D])"
    by (simp add: rsp_defs rsp_E_def)
  note inst = statTable_deterministic [where rs = "[rsp_E, rsp_A, rsp_D]"
      and rs' = "[rsp_D, rsp_A, rsp_E]" and L = plain_Library and a = "cfg [] False"]
  from inst m d sort_Slice_ok_plain table_example show ?thesis
    by blast
qed

section \<open>C10: a target without entries\<close>

lemma names_of_drop_empty:
  "rsp r = [] \<Longrightarrow> names_of (rs1 @ r # rs2) = names_of (rs1 @ rs2)"
  by (simp add: names_of_def)

lemma tab_of_drop_empty:
  "rsp r = [] \<Longrightarrow> tab_of L a (rs1 @ r # rs2) name = tab_of L a (rs1 @ rs2) name"
  by (simp add: tab_of_def rows_of_def)

text \<open>
  C10. An outcome with zero entries contributes nothing to the table: leaving it out
  gives the same text. When every outcome that carries a given target identity has zero
  entries, no row of the table has that identity in its first column, so the identity is
  absent from what is rendered; the text is the rendering of the header and those rows.
\<close>

theorem empty_target_absent_from_table:
  "(rsp r = [] \<longrightarrow> statTable L a (rs1 @ r # rs2) = statTable L a (rs1 @ rs2))
   \<and> (sort_Slice_ok L \<and> (\<forall>r\<in>set rs. TargetName r = name \<longrightarrow> rsp r = []) \<and>
        tableRows L a rs = Inr rows \<longrightarrow>
        name \<notin> set (map (\<lambda>row. row ! 0) rows))
   \<and> statTable L a rs =
       (case tableRows L a rs of Inl p \<Rightarrow> Inl p | Inr rows \<Rightarrow> Inr (table_Render L tableHeader rows))"
proof (intro conjI impI)
  assume "rsp r = []"
  then show "statTable L a (rs1 @ r # rs2) = statTable L a (rs1 @ rs2)"
    by (simp add: statTable_def tableRows_closed names_of_drop_empty tab_of_drop_empty)
next
  assume h: "sort_Slice_ok L \<and> (\<forall>r\<in>set rs. TargetName r = name \<longrightarrow> rsp r = []) \<and>
        tableRows L a rs = Inr rows"
  then have rows: "rows = concat (map (\<lambda>n. sort_Slice L (tab_of L a rs n))
      (sort (remdups (names_of rs))))"
    by (simp add: tableRows_closed)
  show "name \<notin> set (map (\<lambda>row. row ! 0) rows)"
  proof
    assume "name \<in> set (map (\<lambda>row. row ! 0) rows)"
    then obtain row where row: "row \<in> set rows" "row ! 0 = name" by auto
    from row(1) rows obtain n where n: "n \<in> set (names_of rs)"
      and rn: "row \<in> set (sort_Slice L (tab_of L a rs n))" by auto
    from h have "mset (sort_Slice L (tab_of L a rs n)) = mset (tab_of L a rs n)"
      by (simp add: sort_Slice_ok_def)
    then have "set (sort_Slice L (tab_of L a rs n)) = set (tab_of L a rs n)"
      by (rule mset_eq_setD)
    with rn have "row ! 0 = n" using tab_of_column0 by blast
    with row(2) n have "name \<in> set (names_of rs)" by simp
    then obtain r where "r \<in> set rs" "TargetName r = name" "rsp r \<noteq> []"
      by (auto simp: names_of_def)
    with h show False by blast
  qed
next
  show "statTable L a rs =
       (case tableRows L a rs of Inl p \<Rightarrow> Inl p | Inr rows \<Rightarrow> Inr (table_Render L tableHeader rows))"
    by (simp add: statTable_def)
qed

text \<open>The theorem for the outcome of \<open>D\<close>, which has no entries.\<close>

theorem empty_target_absent_from_table_witness:
  "rsp rsp_D = []
   \<and> statTable plain_Library (cfg [] False) ([rsp_E, rsp_A] @ rsp_D # []) =
       statTable plain_Library (cfg [] False) ([rsp_E, rsp_A] @ [])
   \<and> sort_Slice_ok plain_Library
   \<and> list_all (\<lambda>r. TargetName r \<noteq> ''D'' \<or> rsp r = []) [rsp_E, rsp_A, rsp_D]
   \<and> tableRows plain_Library (cfg [] False) [rsp_E, rsp_A, rsp_D] =
     Inr [[''A'', ''/etc/a'', ''1970-01-01T00:00:00Z'', ''-rwxr-xr-x'', ''-rwxrwxrwx'', ''10''],
          [''A'', ''/etc/b'', ''1970-01-01T00:00:00Z'', ''-rwxr-xr-x'', ''-rwxrwxrwx'', ''20''],
          [''A'', ''/etc/ssl'', ''1970-01-01T00:00:00Z'', ''drwxr-xr-x'', ''-rwxrwxrwx'', ''0''],
          [''E'', ''/etc/hosts'', ''1970-01-01T00:00:00Z'', ''-rwxr-xr-x'', ''-rwxrwxrwx'', ''7'']]
   \<and> ''D'' \<notin> set (map (\<lambda>row. row ! 0)
         [[''A'', ''/etc/a'', ''1970-01-01T00:00:00Z'', ''-rwxr-xr-x'', ''-rwxrwxrwx'', ''10''],
          [''A'', ''/etc/b'', ''1970-01-01T00:00:00Z'', ''-rwxr-xr-x'', ''-rwxrwxrwx'', ''20''],
          [''A'', ''/etc/ssl'', ''1970-01-01T00:00:00Z'', ''drwxr-xr-x'', ''-rwxrwxrwx'', ''0''],
          [''E'', ''/etc/hosts'', ''1970-01-01T00:00:00Z'', ''-rwxr-xr-x'', ''-rwxrwxrwx'', ''7'']])"
proof -
  let ?rows = "[[''A'', ''/etc/a'', ''1970-01-01T00:00:00Z'', ''-rwxr-xr-x'', ''-rwxrwxrwx'', ''10''],
          [''A'', ''/etc/b'', ''1970-01-01T00:00:00Z'', ''-rwxr-xr-x'', ''-rwxrwxrwx'', ''20''],
          [''A'', ''/etc/ssl'', ''1970-01-01T00:00:00Z'', ''drwxr-xr-x'', ''-rwxrwxrwx'', ''0''],
          [''E'', ''/etc/hosts'', ''1970-01-01T00:00:00Z'', ''-rwxr-xr-x'', ''-rwxrwxrwx'', ''7'']]"
  have e: "rsp rsp_D = []" by (simp add: rsp_D_def)
  have l: "list_all (\<lambda>r. TargetName r \<noteq> ''D'' \<or> rsp r = []) [rsp_E, rsp_A, rsp_D]"
    by (simp add: rsp_defs rsp_E_def)
  then have b: "\<forall>r\<in>set [rsp_E, rsp_A, rsp_D]. TargetName r = ''D'' \<longrightarrow> rsp r = []"
    by (simp add: rsp_defs rsp_E_def)
  note inst = empty_target_absent_from_table [where r = rsp_D and ?rs1.0 = "[rsp_E, rsp_A]"
      and ?rs2.0 = "[]" and L = plain_Library and a = "cfg [] False"
      and rs = "[rsp_E, rsp_A, rsp_D]" and name = "''D''" and rows = ?rows]
  from inst e have c1: "statTable plain_Library (cfg [] False) ([rsp_E, rsp_A] @ rsp_D # []) =
       statTable plain_Library (cfg [] False) ([rsp_E, rsp_A] @ [])"
    by blast
  from inst sort_Slice_ok_plain b table_example
  have c2: "''D'' \<notin> set (map (\<lambda>row. row ! 0) ?rows)"
    by blast
  from e c1 sort_Slice_ok_plain l table_example c2 show ?thesis
    by (intro conjI)
qed

section \<open>C9: what the goroutines share\<close>

text \<open>
  C9 asks that the channel be the only state the goroutines share, so that no target's
  work changes the error or result another target's goroutine observes. The code shares
  \<open>err\<close> as well. With the targets \<open>A\<close> (reachable) and \<open>B\<close> (connection refused):
  \<^item> when \<open>A\<close>'s goroutine runs to its end before \<open>B\<close>'s starts, \<open>A\<close> posts its entries and
    \<open>B\<close> its connection error;
  \<^item> when \<open>B\<close>'s goroutine executes line 60 between \<open>A\<close>'s line 60 and \<open>A\<close>'s line 61,
    \<open>A\<close> posts \<open>B\<close>'s connection error and no entries;
  \<^item> when \<open>A\<close>'s goroutine executes line 60 between \<open>B\<close>'s line 61 and \<open>B\<close>'s send, \<open>B\<close>
    posts an outcome without error and without entries, and its failure is lost;
  \<^item> when \<open>A\<close>'s goroutine executes line 60 between \<open>B\<close>'s line 60 and \<open>B\<close>'s line 61,
    \<open>B\<close> goes on to the walk without a connection and panics at its first stat call:
    no outcome is posted and \<open>RunEFileStat\<close> does not return.
\<close>

theorem shared_err_interference:
  "responseChan (run 1 (cfg [''/var/log''] False) [tgt_A, tgt_B] [0, 0, 0, 1, 1, 1]
       (init_world [tgt_A, tgt_B])) =
     [\<lparr>TargetName = ''A'', Err = None, rsp = [\<lparr>si = mkStat ''/var/log/syslog'', isDir = False\<rparr>]\<rparr>,
      \<lparr>TargetName = ''B'', Err = Some (ConnectFailed ''connection refused''), rsp = []\<rparr>]
   \<and> responseChan (run 1 (cfg [''/var/log''] False) [tgt_A, tgt_B] [0, 1, 0, 0, 1, 1]
       (init_world [tgt_A, tgt_B])) =
     [\<lparr>TargetName = ''A'', Err = Some (ConnectFailed ''connection refused''), rsp = []\<rparr>,
      \<lparr>TargetName = ''B'', Err = Some (ConnectFailed ''connection refused''), rsp = []\<rparr>]
   \<and> responseChan (run 1 (cfg [''/var/log''] False) [tgt_A, tgt_B] [1, 1, 0, 1, 0, 0]
       (init_world [tgt_A, tgt_B])) =
     [\<lparr>TargetName = ''B'', Err = None, rsp = []\<rparr>,
      \<lparr>TargetName = ''A'', Err = None, rsp = [\<lparr>si = mkStat ''/var/log/syslog'', isDir = False\<rparr>]\<rparr>]
   \<and> pcs (run 1 (cfg [''/var/log''] False) [tgt_A, tgt_B] [1, 0, 1, 1, 0, 0]
       (init_world [tgt_A, tgt_B])) = [AtTest, Panicked]
   \<and> responseChan (run 1 (cfg [''/var/log''] False) [tgt_A, tgt_B] [1, 0, 1, 1, 0, 0]
       (init_world [tgt_A, tgt_B])) = []
   \<and> RunEFileStat 1 plain_Library (cfg [''/var/log''] False) [tgt_A, tgt_B] [1, 0, 1, 1, 0, 0] =
       None"
  by code_simp

end
